theory Spec2Isabelle
  imports Main "HOL-Library.Char_ord" "HOL-Library.List_Lexorder"
begin

section \<open>Data model\<close>

subsection \<open>JavaScript sets of strings\<close>

text \<open>
  A JavaScript \<open>Set\<close> holds each element once and iterates in insertion order.
  It is a list without repetitions; \<open>add\<close> appends an element that is not yet there.
\<close>

typedef 'a js_set = "{xs :: 'a list. distinct xs}"
  by (rule exI [of _ "[]"]) simp

setup_lifting type_definition_js_set

lift_definition new_Set :: "'a js_set" is "[]"
  by simp

lift_definition set_add :: "'a \<Rightarrow> 'a js_set \<Rightarrow> 'a js_set"
  is "\<lambda>x xs. if x \<in> set xs then xs else xs @ [x]"
  by simp

lift_definition set_values :: "'a js_set \<Rightarrow> 'a list" is "\<lambda>xs. xs" .

definition set_has :: "'a js_set \<Rightarrow> 'a \<Rightarrow> bool" where
  "set_has s x = (x \<in> set (set_values s))"

definition set_size :: "'a js_set \<Rightarrow> nat" where
  "set_size s = length (set_values s)"

text \<open>\<open>new Set(xs)\<close>: the elements of an array, added one by one.\<close>

definition Set_of :: "'a list \<Rightarrow> 'a js_set" where
  "Set_of xs = fold set_add xs new_Set"

subsection \<open>Messages\<close>

text \<open>Values of tool-call arguments, as far as \<open>typeof\<close> tells them apart.\<close>

datatype jvalue = JString string | JNumber int | JBool bool | JNull | JObject

text \<open>
  Modelled from the spec: the declarations of the message types (\<open>AgentMessage\<close> and
  its content blocks) and of \<open>SessionEntry\<close> are missing from the sources; the types
  below carry the roles, the entry kinds and the fields that the code reads.

  Content blocks of a message: a tool call carries its id, its name and its arguments
  (\<open>None\<close> when the arguments are undefined or null).
\<close>

datatype content_block =
    TextContent string
  | ImageContent string
  | ToolCall string string "(string \<times> jvalue) list option"

datatype msg_content = Str string | Blocks "content_block list"

text \<open>
  The role-tagged union \<open>AgentMessage\<close>. The last argument of each summary and hook
  message is its timestamp.
\<close>

datatype agent_message =
    UserMessage msg_content
  | AssistantMessage msg_content
  | ToolResultMessage string msg_content
  | BranchSummaryMessage string string int
  | CompactionSummaryMessage string int int
  | HookMessage string msg_content bool "jvalue option" int
  | BashExecutionMessage string string

fun role :: "agent_message \<Rightarrow> string" where
  "role (UserMessage _) = ''user''"
| "role (AssistantMessage _) = ''assistant''"
| "role (ToolResultMessage _ _) = ''toolResult''"
| "role (BranchSummaryMessage _ _ _) = ''branchSummary''"
| "role (CompactionSummaryMessage _ _ _) = ''compactionSummary''"
| "role (HookMessage _ _ _ _ _) = ''hookMessage''"
| "role (BashExecutionMessage _ _) = ''bashExecution''"

subsection \<open>Session entries\<close>

datatype entry_payload =
    Message agent_message
  | Custom_message string msg_content bool "jvalue option"
  | Branch_summary string string
  | Compaction string int
  | Thinking_level_change
  | Model_change
  | Custom
  | Label

record session_entry =
  entry_id :: string
  parentId :: "string option"
  timestamp :: int
  payload :: entry_payload

record file_operations =
  read :: "string js_set"
  written :: "string js_set"
  edited :: "string js_set"

record branch_preparation =
  messages :: "agent_message list"
  fileOps :: file_operations
  totalTokens :: int

section \<open>Entry to message conversion\<close>

text \<open>
  Modelled from the spec: the constructors \<open>createHookMessage\<close>,
  \<open>createBranchSummaryMessage\<close> and \<open>createCompactionSummaryMessage\<close> of the messages
  module are missing from the sources. Each builds the message of its role from the
  fields of the entry and the entry's timestamp.
\<close>

definition createHookMessage ::
  "string \<Rightarrow> msg_content \<Rightarrow> bool \<Rightarrow> jvalue option \<Rightarrow> int \<Rightarrow> agent_message" where
  "createHookMessage customType content display details ts =
     HookMessage customType content display details ts"

definition createBranchSummaryMessage :: "string \<Rightarrow> string \<Rightarrow> int \<Rightarrow> agent_message" where
  "createBranchSummaryMessage summary fromId ts = BranchSummaryMessage summary fromId ts"

definition createCompactionSummaryMessage :: "string \<Rightarrow> int \<Rightarrow> int \<Rightarrow> agent_message" where
  "createCompactionSummaryMessage summary tokensBefore ts =
     CompactionSummaryMessage summary tokensBefore ts"

definition getMessageFromEntry :: "session_entry \<Rightarrow> agent_message option" where
  "getMessageFromEntry entry =
     (case payload entry of
        Message m \<Rightarrow> if role m = ''toolResult'' then None else Some m
      | Custom_message customType content display details \<Rightarrow>
          Some (createHookMessage customType content display details (timestamp entry))
      | Branch_summary summary fromId \<Rightarrow>
          Some (createBranchSummaryMessage summary fromId (timestamp entry))
      | Compaction summary tokensBefore \<Rightarrow>
          Some (createCompactionSummaryMessage summary tokensBefore (timestamp entry))
      | Thinking_level_change \<Rightarrow> None
      | Model_change \<Rightarrow> None
      | Custom \<Rightarrow> None
      | Label \<Rightarrow> None)"

section \<open>File operations of an assistant message\<close>

text \<open>
  One tool-call block: the \<open>path\<close> argument must be a non-empty string, and the tool
  name selects the set. Every other block leaves the sets as they are.
\<close>

fun extractFileOpsFromBlock :: "content_block \<Rightarrow> file_operations \<Rightarrow> file_operations" where
  "extractFileOpsFromBlock (ToolCall _ name (Some args)) ops =
     (case map_of args ''path'' of
        Some (JString path) \<Rightarrow>
          if path = [] then ops
          else if name = ''read'' then ops\<lparr>read := set_add path (read ops)\<rparr>
          else if name = ''write'' then ops\<lparr>written := set_add path (written ops)\<rparr>
          else if name = ''edit'' then ops\<lparr>edited := set_add path (edited ops)\<rparr>
          else ops
      | _ \<Rightarrow> ops)"
| "extractFileOpsFromBlock _ ops = ops"

fun extractFileOpsFromMessage :: "agent_message \<Rightarrow> file_operations \<Rightarrow> file_operations" where
  "extractFileOpsFromMessage (AssistantMessage (Blocks bs)) ops =
     fold extractFileOpsFromBlock bs ops"
| "extractFileOpsFromMessage _ ops = ops"

section \<open>Preparing a branch under a token budget\<close>

text \<open>
  The token estimator \<open>estimateTokens\<close> belongs to the compaction module, which is not
  among the sources; it is the parameter \<open>est\<close>, a count of tokens.

  The loop of \<open>prepareBranchEntries\<close> visits the entries from the newest to the oldest:
  \<open>prepare_loop\<close> takes them in that order. The test
  \<open>totalTokens < tokenBudget * 0.9\<close> on whole numbers is
  \<open>10 * totalTokens < 9 * tokenBudget\<close>.
\<close>

definition is_summary_entry :: "session_entry \<Rightarrow> bool" where
  "is_summary_entry entry =
     (case payload entry of Compaction _ _ \<Rightarrow> True | Branch_summary _ _ \<Rightarrow> True | _ \<Rightarrow> False)"

definition admit :: "agent_message \<Rightarrow> int \<Rightarrow> file_operations \<Rightarrow> branch_preparation \<Rightarrow>
    branch_preparation" where
  "admit message tokens ops acc =
     \<lparr>messages = message # messages acc, fileOps = ops, totalTokens = totalTokens acc + tokens\<rparr>"

fun prepare_loop ::
  "(agent_message \<Rightarrow> nat) \<Rightarrow> int \<Rightarrow> session_entry list \<Rightarrow> branch_preparation \<Rightarrow>
    branch_preparation" where
  "prepare_loop est tokenBudget [] acc = acc"
| "prepare_loop est tokenBudget (entry # older) acc =
     (case getMessageFromEntry entry of
        None \<Rightarrow> prepare_loop est tokenBudget older acc
      | Some message \<Rightarrow>
          (let ops = extractFileOpsFromMessage message (fileOps acc);
               tokens = int (est message)
           in if tokenBudget > 0 \<and> totalTokens acc + tokens > tokenBudget
              then (if is_summary_entry entry \<and> 10 * totalTokens acc < 9 * tokenBudget
                    then admit message tokens ops acc
                    else acc\<lparr>fileOps := ops\<rparr>)
              else prepare_loop est tokenBudget older (admit message tokens ops acc)))"

definition prepareBranchEntries ::
  "(agent_message \<Rightarrow> nat) \<Rightarrow> session_entry list \<Rightarrow> int \<Rightarrow> branch_preparation" where
  "prepareBranchEntries est entries tokenBudget =
     prepare_loop est tokenBudget (rev entries)
       \<lparr>messages = [],
        fileOps = \<lparr>read = new_Set, written = new_Set, edited = new_Set\<rparr>,
        totalTokens = 0\<rparr>"

text \<open>The messages and the token cost of a run of entries that are all admitted.\<close>

definition messages_of :: "session_entry list \<Rightarrow> agent_message list" where
  "messages_of entries = List.map_filter getMessageFromEntry entries"

definition tokens_of :: "(agent_message \<Rightarrow> nat) \<Rightarrow> session_entry list \<Rightarrow> int" where
  "tokens_of est entries = (\<Sum>m \<leftarrow> messages_of entries. int (est m))"

section \<open>Summary generation\<close>

text \<open>\<open>Array.prototype.join\<close> on strings, and the line feed of the templates.\<close>

fun join :: "string \<Rightarrow> string list \<Rightarrow> string" where
  "join sep [] = []"
| "join sep [x] = x"
| "join sep (x # y # ys) = x @ sep @ join sep (y # ys)"

definition nl :: string where
  "nl = [CHR 0x0A]"

text \<open>
  The default \<open>sort()\<close> of JavaScript orders strings by their code units, which is the
  lexicographic order of \<open>string\<close> here.
\<close>

definition formatFileOperations :: "file_operations \<Rightarrow> string" where
  "formatFileOperations ops =
     (let modified = Set_of (set_values (edited ops) @ set_values (written ops));
          readOnly = sort (filter (\<lambda>f. \<not> set_has modified f) (set_values (read ops)));
          sections =
            (if length readOnly > 0
             then [''<read-files>'' @ nl @ join nl readOnly @ nl @ ''</read-files>'']
             else []);
          sections =
            (if set_size modified > 0
             then sections @
               [''<modified-files>'' @ nl @ join nl (sort (set_values modified)) @ nl @
                ''</modified-files>'']
             else sections)
      in if length sections = 0 then [] else nl @ nl @ join (nl @ nl) sections)"

text \<open>The text of the text blocks of a content array, concatenated.\<close>

fun block_text :: "content_block \<Rightarrow> string option" where
  "block_text (TextContent t) = Some t"
| "block_text _ = None"

definition texts_joined :: "string \<Rightarrow> content_block list \<Rightarrow> string" where
  "texts_joined sep bs = join sep (List.map_filter block_text bs)"

fun message_text :: "agent_message \<Rightarrow> string" where
  "message_text (UserMessage (Str t)) = t"
| "message_text (UserMessage (Blocks bs)) = texts_joined [] bs"
| "message_text (AssistantMessage (Blocks bs)) = texts_joined [] bs"
| "message_text (BranchSummaryMessage summary _ _) = ''[Branch summary: '' @ summary @ '']''"
| "message_text (CompactionSummaryMessage summary _ _) =
     ''[Session summary: '' @ summary @ '']''"
| "message_text (HookMessage _ (Str t) _ _ _) = t"
| "message_text (HookMessage _ (Blocks bs) _ _ _) = texts_joined [] bs"
| "message_text _ = []"

definition messagesToText :: "agent_message list \<Rightarrow> string" where
  "messagesToText msgs =
     join (nl @ nl)
       (List.map_filter
          (\<lambda>msg. if message_text msg = [] then None
                 else Some (role msg @ '': '' @ message_text msg))
          msgs)"

definition BRANCH_SUMMARY_PROMPT :: string where
  "BRANCH_SUMMARY_PROMPT =
     ''Summarize this conversation branch concisely for context when returning later:'' @ nl @
     ''- Key decisions made and actions taken'' @ nl @
     ''- Important context, constraints, or preferences discovered'' @ nl @
     ''- Current state and any pending work'' @ nl @
     ''- Critical information needed to continue from a different point'' @ nl @ nl @
     ''Be brief and focused on what matters for future reference.''"

text \<open>
  The options of \<open>generateBranchSummary\<close>. Of the model only the context window is
  read (\<open>None\<close> when it is not known); \<open>signal\<close> tells whether cancellation was
  requested.
\<close>

record generate_options =
  contextWindow :: "int option"
  apiKey :: string
  signal :: bool
  customInstructions :: "string option"
  reserveTokens :: "int option"

text \<open>
  The completion function \<open>complete\<close> of the provider library is external. A call
  passes the model, one user message with the prompt and the time of the call, the key,
  the signal and the bound on the answer; the answer carries a stop reason, content
  blocks and, on an error, a message.
\<close>

record completion_request =
  req_contextWindow :: "int option"
  req_prompt :: string
  req_timestamp :: int
  req_apiKey :: string
  req_signal :: bool
  req_maxTokens :: int

record completion_response =
  stopReason :: string
  content :: "content_block list"
  errorMessage :: "string option"

record branch_summary_result =
  summary :: "string option"
  aborted :: "bool option"
  error :: "string option"

text \<open>
  \<open>generateBranchSummary\<close> returns its result together with the list of the calls it
  made to the completion function, in order. \<open>now\<close> is the reading of the clock.
\<close>

definition generateBranchSummary ::
  "(agent_message \<Rightarrow> nat) \<Rightarrow> (completion_request \<Rightarrow> completion_response) \<Rightarrow> int \<Rightarrow>
     session_entry list \<Rightarrow> generate_options \<Rightarrow>
     branch_summary_result \<times> completion_request list" where
  "generateBranchSummary est complete now entries options =
     (let reserve = (case reserveTokens options of None \<Rightarrow> 16384 | Some r \<Rightarrow> r);
          window = (case contextWindow options of
                      None \<Rightarrow> 128000
                    | Some w \<Rightarrow> if w = 0 then 128000 else w);
          tokenBudget = window - reserve;
          prep = prepareBranchEntries est entries tokenBudget
      in if length (messages prep) = 0
         then (\<lparr>summary = Some ''No content to summarize'', aborted = None, error = None\<rparr>, [])
         else
           (let conversationText = messagesToText (messages prep);
                instructions =
                  (case customInstructions options of
                     None \<Rightarrow> BRANCH_SUMMARY_PROMPT
                   | Some i \<Rightarrow> if i = [] then BRANCH_SUMMARY_PROMPT else i);
                prompt = instructions @ nl @ nl @ ''Conversation:'' @ nl @ conversationText;
                request =
                  \<lparr>req_contextWindow = contextWindow options, req_prompt = prompt,
                   req_timestamp = now, req_apiKey = apiKey options,
                   req_signal = signal options, req_maxTokens = 2048\<rparr>;
                response = complete request
            in if stopReason response = ''aborted''
               then (\<lparr>summary = None, aborted = Some True, error = None\<rparr>, [request])
               else if stopReason response = ''error''
               then (\<lparr>summary = None, aborted = None,
                      error = Some (case errorMessage response of
                                      None \<Rightarrow> ''Summarization failed''
                                    | Some e \<Rightarrow> if e = [] then ''Summarization failed'' else e)\<rparr>,
                     [request])
               else
                 (let text = texts_joined nl (content response) @
                             formatFileOperations (fileOps prep)
                  in (\<lparr>summary = Some (if text = [] then ''No summary generated'' else text),
                       aborted = None, error = None\<rparr>,
                      [request]))))"

section \<open>Collecting the entries of the branch that is left\<close>

text \<open>
  Modelled from the spec: the session manager (\<open>ReadonlySessionManager\<close>, with
  \<open>getEntry\<close> and \<open>getPath\<close>) is missing from the sources. A session is the list of
  its entries; \<open>getEntry\<close> returns the entry with the given id, if there is one, and
  \<open>getPath\<close> the entries from the given id to the root, following \<open>parentId\<close>, in
  that order (leaf first). The walk does not return on a cycle of parents: \<open>None\<close>
  stands for that.
\<close>

type_synonym session = "session_entry list"

definition getEntry :: "session \<Rightarrow> string \<Rightarrow> session_entry option" where
  "getEntry session i = find (\<lambda>e. entry_id e = i) session"

partial_function (option) getPath :: "session \<Rightarrow> string \<Rightarrow> session_entry list option" where
  "getPath session i =
     (case getEntry session i of
        None \<Rightarrow> Some []
      | Some e \<Rightarrow>
          (case parentId e of
             None \<Rightarrow> Some [e]
           | Some p \<Rightarrow> Option.bind (getPath session p) (\<lambda>rest. Some (e # rest))))"

text \<open>
  The \<open>while\<close> loop of \<open>collectEntriesForBranchSummary\<close>. The empty string is
  falsy in the test \<open>current && current !== commonAncestorId\<close>, like \<open>null\<close>.
  The loop does not return either when the parents form a cycle that misses the common
  ancestor.
\<close>

record collect_entries_result =
  entries :: "session_entry list"
  commonAncestorId :: "string option"

partial_function (option) collect_loop ::
  "session \<Rightarrow> string option \<Rightarrow> string option \<Rightarrow> session_entry list \<Rightarrow> session_entry list option"
  where
  "collect_loop session common current collected =
     (case current of
        None \<Rightarrow> Some collected
      | Some c \<Rightarrow>
          if c = [] \<or> current = common then Some collected
          else (case getEntry session c of
                  None \<Rightarrow> Some collected
                | Some entry \<Rightarrow>
                    collect_loop session common (parentId entry) (collected @ [entry])))"

definition collectEntriesForBranchSummary ::
  "session \<Rightarrow> string option \<Rightarrow> string \<Rightarrow> collect_entries_result option" where
  "collectEntriesForBranchSummary session oldLeafId targetId =
     (case oldLeafId of
        None \<Rightarrow> Some \<lparr>entries = [], commonAncestorId = None\<rparr>
      | Some old \<Rightarrow>
          if old = [] then Some \<lparr>entries = [], commonAncestorId = None\<rparr>
          else
            Option.bind (getPath session old) (\<lambda>oldEntries.
            Option.bind (getPath session targetId) (\<lambda>targetPath.
              let oldPath = Set_of (map entry_id oldEntries);
                  common = map_option entry_id
                    (find (\<lambda>entry. set_has oldPath (entry_id entry)) targetPath)
              in Option.bind (collect_loop session common oldLeafId []) (\<lambda>collected.
                   Some \<lparr>entries = rev collected, commonAncestorId = common\<rparr>))))"

text \<open>
  An example session: \<open>r\<close> is the root, \<open>a\<close> its child, \<open>b\<close> and \<open>c\<close> are
  children of \<open>a\<close>, and \<open>d\<close> is the child of \<open>c\<close>.
\<close>

definition example_entry :: "string \<Rightarrow> string option \<Rightarrow> session_entry" where
  "example_entry i p =
     \<lparr>entry_id = i, parentId = p, timestamp = 0, payload = Message (UserMessage (Str i))\<rparr>"

definition example_session :: session where
  "example_session =
     [example_entry ''r'' None, example_entry ''a'' (Some ''r''),
      example_entry ''b'' (Some ''a''), example_entry ''c'' (Some ''a''),
      example_entry ''d'' (Some ''c'')]"

section \<open>Hook runner\<close>

subsection \<open>Events, results and handlers\<close>

text \<open>
  Modelled from the spec: the declarations of the hook types (events, results, errors,
  the event context and loaded hooks) are missing from the sources; the types below
  carry the fields that the runner reads. An event has its type, the reason of a session
  event, the messages of a context event and the rest of its data. A handler result has
  the flags \<open>cancel\<close> and \<open>block\<close>, the replacement messages of a context result and
  the rest of its data. A handler that returns nothing returns \<open>None\<close>. Of the event
  context, the UI object and the two registries are passed on unread and left out.
\<close>

record hook_event =
  event_type :: string
  reason :: "string option"
  event_messages :: "agent_message list option"
  event_data :: string

record handler_result =
  cancel :: bool
  block :: bool
  result_messages :: "agent_message list option"
  result_data :: string

record hook_error =
  hookPath :: string
  event :: string
  error_msg :: string

record hook_event_context =
  hasUI :: bool
  cwd :: string

text \<open>
  What the promise of a handler call does: it resolves with a result or rejects with an
  error message, a number of milliseconds after the call, or it never settles. A handler
  that throws before it returns a promise is \<open>Settles 0 (Rejected e)\<close>.
\<close>

datatype settled = Resolved "handler_result option" | Rejected string

datatype behaviour = Settles nat settled | Never_settles

text \<open>A handler is a function of the event and the context; its name labels it in traces.\<close>

record handler =
  handler_name :: string
  run :: "hook_event \<Rightarrow> hook_event_context \<Rightarrow> behaviour"

record loaded_hook =
  path :: string
  handlers :: "string \<Rightarrow> handler list option"

text \<open>
  An error listener is a function of the error: it returns (\<open>None\<close>) or throws an
  error with a message; its name labels it in traces. The set keeps the listeners in the
  order of subscription.
\<close>

record listener =
  listener_name :: string
  react :: "hook_error \<Rightarrow> string option"

record hook_runner =
  hooks :: "loaded_hook list"
  runner_hasUI :: bool
  runner_cwd :: string
  timeout :: nat
  errorListeners :: "listener js_set"

text \<open>
  The effects of an emission: the handler calls made (hook path, handler name and the
  event passed), the calls of listeners made (listener name and error), the time in
  milliseconds, and the timers: how many were created, and which of them are still
  scheduled, each with its handle and the time at which it fires.
\<close>

record world =
  invoked :: "(string \<times> string \<times> hook_event) list"
  delivered :: "(string \<times> hook_error) list"
  clock :: nat
  timers_created :: nat
  scheduled :: "(nat \<times> nat) list"

subsection \<open>Timers\<close>

text \<open>The decimal digits of a number, as a template literal prints it.\<close>

fun string_of_nat :: "nat \<Rightarrow> string" where
  "string_of_nat n =
     (if n < 10 then [''0123456789'' ! n]
      else string_of_nat (n div 10) @ [''0123456789'' ! (n mod 10)])"

declare string_of_nat.simps [simp del]

text \<open>
  \<open>createTimeout\<close> schedules a timer that fires after \<open>ms\<close> milliseconds and returns
  its handle. \<open>clear\<close> is \<open>clearTimeout\<close>. When time passes, every timer that is due
  fires and is no longer scheduled: also a timer that an earlier call has left behind.
\<close>

definition createTimeout :: "nat \<Rightarrow> world \<Rightarrow> nat \<times> world" where
  "createTimeout ms w =
     (timers_created w,
      w\<lparr>timers_created := Suc (timers_created w),
        scheduled := scheduled w @ [(timers_created w, clock w + ms)]\<rparr>)"

definition clear :: "nat \<Rightarrow> world \<Rightarrow> world" where
  "clear t w = w\<lparr>scheduled := filter (\<lambda>(handle, due). handle \<noteq> t) (scheduled w)\<rparr>"

definition elapse :: "nat \<Rightarrow> world \<Rightarrow> world" where
  "elapse d w =
     w\<lparr>clock := clock w + d,
       scheduled := filter (\<lambda>(handle, due). clock w + d < due) (scheduled w)\<rparr>"

definition timeout_message :: "nat \<Rightarrow> string" where
  "timeout_message ms = ''Hook timed out after '' @ string_of_nat ms @ ''ms''"

subsection \<open>One handler call\<close>

text \<open>
  The outcome of a call as the runner sees it: \<open>Inr\<close> the awaited value, \<open>Inl\<close> the
  message of the error that the \<open>await\<close> throws.

  With a timeout, \<open>Promise.race\<close> settles with whichever of the handler and the timer
  settles first, and \<open>timeout.clear()\<close> is the statement after the \<open>await\<close>: it runs
  when the race resolves and is skipped when the race rejects. A promise that settles
  without waiting settles before any timer; otherwise the timer, which was scheduled
  before the handler was called, is first when both are due at the same time.
\<close>

definition handler_first :: "nat \<Rightarrow> nat \<Rightarrow> bool" where
  "handler_first d ms = (d = 0 \<or> d < ms)"

definition call_logged :: "string \<Rightarrow> handler \<Rightarrow> hook_event \<Rightarrow> world \<Rightarrow> world" where
  "call_logged p h ev w = w\<lparr>invoked := invoked w @ [(p, handler_name h, ev)]\<rparr>"

definition invoke_with_timeout ::
  "nat \<Rightarrow> string \<Rightarrow> handler \<Rightarrow> hook_event \<Rightarrow> hook_event_context \<Rightarrow> world \<Rightarrow>
     (string + handler_result option) \<times> world" where
  "invoke_with_timeout ms p h ev ctx w =
     (let (t, w1) = createTimeout ms w;
          w2 = call_logged p h ev w1
      in case run h ev ctx of
           Settles d s \<Rightarrow>
             if handler_first d ms
             then (case s of
                     Resolved v \<Rightarrow> (Inr v, clear t (elapse d w2))
                   | Rejected e \<Rightarrow> (Inl e, elapse d w2))
             else (Inl (timeout_message ms), elapse ms w2)
         | Never_settles \<Rightarrow> (Inl (timeout_message ms), elapse ms w2))"

text \<open>Without a timeout the \<open>await\<close> waits for the handler; \<open>None\<close>: it waits forever.\<close>

definition invoke_without_timeout ::
  "string \<Rightarrow> handler \<Rightarrow> hook_event \<Rightarrow> hook_event_context \<Rightarrow> world \<Rightarrow>
     ((string + handler_result option) \<times> world) option" where
  "invoke_without_timeout p h ev ctx w =
     (case run h ev ctx of
        Settles d (Resolved v) \<Rightarrow> Some (Inr v, elapse d (call_logged p h ev w))
      | Settles d (Rejected e) \<Rightarrow> Some (Inl e, elapse d (call_logged p h ev w))
      | Never_settles \<Rightarrow> None)"

subsection \<open>The runner\<close>

text \<open>
  \<open>emitError\<close> calls the listeners in turn, with no \<open>try\<close>: an error thrown by a
  listener ends the loop and leaves \<open>emitError\<close> (\<open>Some\<close> its message).
\<close>

fun emitError_listeners :: "listener list \<Rightarrow> hook_error \<Rightarrow> world \<Rightarrow> string option \<times> world" where
  "emitError_listeners [] err w = (None, w)"
| "emitError_listeners (l # ls) err w =
     (case react l err of
        Some message \<Rightarrow> (Some message, w\<lparr>delivered := delivered w @ [(listener_name l, err)]\<rparr>)
      | None \<Rightarrow>
          emitError_listeners ls err (w\<lparr>delivered := delivered w @ [(listener_name l, err)]\<rparr>))"

definition emitError :: "hook_runner \<Rightarrow> hook_error \<Rightarrow> world \<Rightarrow> string option \<times> world" where
  "emitError r err w = emitError_listeners (set_values (errorListeners r)) err w"

definition createContext :: "hook_runner \<Rightarrow> hook_event_context" where
  "createContext r = \<lparr>hasUI = runner_hasUI r, cwd = runner_cwd r\<rparr>"

text \<open>
  The state of a dispatch loop: still running with the result so far, or left by a
  \<open>return\<close> inside the loop. An error that leaves the loops is \<open>Inl\<close>, with its
  message and the effects so far: in \<open>emit\<close> and \<open>emitContext\<close> it can only come from
  \<open>emitError\<close>, which the \<open>catch\<close> block calls.
\<close>

datatype 'a flow = Running 'a world | Returned 'a world

definition isBeforeCompact :: "hook_event \<Rightarrow> bool" where
  "isBeforeCompact ev = (event_type ev = ''session'' \<and> reason ev = Some ''before_compact'')"

fun emit_handlers ::
  "hook_runner \<Rightarrow> hook_event_context \<Rightarrow> hook_event \<Rightarrow> string \<Rightarrow> handler list \<Rightarrow>
     handler_result option \<Rightarrow> world \<Rightarrow>
     (string \<times> world + handler_result option flow) option" where
  "emit_handlers r ctx ev p [] result w = Some (Inr (Running result w))"
| "emit_handlers r ctx ev p (h # hs) result w =
     (case (if isBeforeCompact ev then invoke_without_timeout p h ev ctx w
            else Some (invoke_with_timeout (timeout r) p h ev ctx w)) of
        None \<Rightarrow> None
      | Some (Inr handlerResult, w') \<Rightarrow>
          (case handlerResult of
             None \<Rightarrow> emit_handlers r ctx ev p hs result w'
           | Some res \<Rightarrow>
               if event_type ev = ''session''
               then (if cancel res then Some (Inr (Returned handlerResult w'))
                     else emit_handlers r ctx ev p hs handlerResult w')
               else if event_type ev = ''tool_result''
               then emit_handlers r ctx ev p hs handlerResult w'
               else emit_handlers r ctx ev p hs result w')
      | Some (Inl message, w') \<Rightarrow>
          (case emitError r \<lparr>hookPath = p, event = event_type ev, error_msg = message\<rparr> w' of
             (Some thrown, w'') \<Rightarrow> Some (Inl (thrown, w''))
           | (None, w'') \<Rightarrow> emit_handlers r ctx ev p hs result w''))"

fun emit_hooks ::
  "hook_runner \<Rightarrow> hook_event_context \<Rightarrow> hook_event \<Rightarrow> loaded_hook list \<Rightarrow>
     handler_result option \<Rightarrow> world \<Rightarrow> ((string + handler_result option) \<times> world) option" where
  "emit_hooks r ctx ev [] result w = Some (Inr result, w)"
| "emit_hooks r ctx ev (hook # rest) result w =
     (case handlers hook (event_type ev) of
        None \<Rightarrow> emit_hooks r ctx ev rest result w
      | Some hs \<Rightarrow>
          if length hs = 0 then emit_hooks r ctx ev rest result w
          else (case emit_handlers r ctx ev (path hook) hs result w of
                  None \<Rightarrow> None
                | Some (Inl (thrown, w')) \<Rightarrow> Some (Inl thrown, w')
                | Some (Inr (Returned res w')) \<Rightarrow> Some (Inr res, w')
                | Some (Inr (Running res w')) \<Rightarrow> emit_hooks r ctx ev rest res w'))"

text \<open>
  \<open>emit\<close> returns the value it resolves with (\<open>Inr\<close>) or the error it rejects with
  (\<open>Inl\<close>), and the effects; \<open>None\<close> when it never settles.
\<close>

definition emit ::
  "hook_runner \<Rightarrow> hook_event \<Rightarrow> world \<Rightarrow> ((string + handler_result option) \<times> world) option" where
  "emit r ev w = emit_hooks r (createContext r) ev (hooks r) None w"

text \<open>
  \<open>emitToolCall\<close>: no timeout, and no \<open>try\<close>: the error of a handler leaves the
  loops and reaches the caller (\<open>Inl\<close>, with the effects so far).
\<close>

fun emitToolCall_handlers ::
  "hook_event_context \<Rightarrow> hook_event \<Rightarrow> string \<Rightarrow> handler list \<Rightarrow>
     handler_result option \<Rightarrow> world \<Rightarrow>
     (string \<times> world + handler_result option flow) option" where
  "emitToolCall_handlers ctx ev p [] result w = Some (Inr (Running result w))"
| "emitToolCall_handlers ctx ev p (h # hs) result w =
     (case invoke_without_timeout p h ev ctx w of
        None \<Rightarrow> None
      | Some (Inl message, w') \<Rightarrow> Some (Inl (message, w'))
      | Some (Inr handlerResult, w') \<Rightarrow>
          (case handlerResult of
             None \<Rightarrow> emitToolCall_handlers ctx ev p hs result w'
           | Some res \<Rightarrow>
               if block res then Some (Inr (Returned handlerResult w'))
               else emitToolCall_handlers ctx ev p hs handlerResult w'))"

fun emitToolCall_hooks ::
  "hook_event_context \<Rightarrow> hook_event \<Rightarrow> loaded_hook list \<Rightarrow> handler_result option \<Rightarrow> world \<Rightarrow>
     ((string + handler_result option) \<times> world) option" where
  "emitToolCall_hooks ctx ev [] result w = Some (Inr result, w)"
| "emitToolCall_hooks ctx ev (hook # rest) result w =
     (case handlers hook ''tool_call'' of
        None \<Rightarrow> emitToolCall_hooks ctx ev rest result w
      | Some hs \<Rightarrow>
          if length hs = 0 then emitToolCall_hooks ctx ev rest result w
          else (case emitToolCall_handlers ctx ev (path hook) hs result w of
                  None \<Rightarrow> None
                | Some (Inl (message, w')) \<Rightarrow> Some (Inl message, w')
                | Some (Inr (Returned res w')) \<Rightarrow> Some (Inr res, w')
                | Some (Inr (Running res w')) \<Rightarrow> emitToolCall_hooks ctx ev rest res w'))"

definition emitToolCall ::
  "hook_runner \<Rightarrow> hook_event \<Rightarrow> world \<Rightarrow> ((string + handler_result option) \<times> world) option" where
  "emitToolCall r ev w = emitToolCall_hooks (createContext r) ev (hooks r) None w"

text \<open>\<open>emitContext\<close>: every call has a timeout, and the messages are chained.\<close>

definition context_event :: "agent_message list \<Rightarrow> hook_event" where
  "context_event msgs =
     \<lparr>event_type = ''context'', reason = None, event_messages = Some msgs, event_data = []\<rparr>"

fun emitContext_handlers ::
  "hook_runner \<Rightarrow> hook_event_context \<Rightarrow> string \<Rightarrow> handler list \<Rightarrow>
     agent_message list \<times> bool \<Rightarrow> world \<Rightarrow>
     string \<times> world + (agent_message list \<times> bool) \<times> world" where
  "emitContext_handlers r ctx p [] state w = Inr (state, w)"
| "emitContext_handlers r ctx p (h # hs) (currentMessages, modified) w =
     (case invoke_with_timeout (timeout r) p h (context_event currentMessages) ctx w of
        (Inr handlerResult, w') \<Rightarrow>
          (case handlerResult of
             None \<Rightarrow> emitContext_handlers r ctx p hs (currentMessages, modified) w'
           | Some res \<Rightarrow>
               (case result_messages res of
                  None \<Rightarrow> emitContext_handlers r ctx p hs (currentMessages, modified) w'
                | Some msgs \<Rightarrow> emitContext_handlers r ctx p hs (msgs, True) w'))
      | (Inl message, w') \<Rightarrow>
          (case emitError r \<lparr>hookPath = p, event = ''context'', error_msg = message\<rparr> w' of
             (Some thrown, w'') \<Rightarrow> Inl (thrown, w'')
           | (None, w'') \<Rightarrow>
               emitContext_handlers r ctx p hs (currentMessages, modified) w''))"

fun emitContext_hooks ::
  "hook_runner \<Rightarrow> hook_event_context \<Rightarrow> loaded_hook list \<Rightarrow> agent_message list \<times> bool \<Rightarrow>
     world \<Rightarrow> string \<times> world + (agent_message list \<times> bool) \<times> world" where
  "emitContext_hooks r ctx [] state w = Inr (state, w)"
| "emitContext_hooks r ctx (hook # rest) state w =
     (case handlers hook ''context'' of
        None \<Rightarrow> emitContext_hooks r ctx rest state w
      | Some hs \<Rightarrow>
          if length hs = 0 then emitContext_hooks r ctx rest state w
          else (case emitContext_handlers r ctx (path hook) hs state w of
                  Inl thrown \<Rightarrow> Inl thrown
                | Inr (state', w') \<Rightarrow> emitContext_hooks r ctx rest state' w'))"

definition emitContext ::
  "hook_runner \<Rightarrow> agent_message list \<Rightarrow> world \<Rightarrow>
     (string + agent_message list option) \<times> world" where
  "emitContext r msgs w =
     (case emitContext_hooks r (createContext r) (hooks r) (msgs, False) w of
        Inl (thrown, w') \<Rightarrow> (Inl thrown, w')
      | Inr ((currentMessages, modified), w') \<Rightarrow>
          (Inr (if modified then Some currentMessages else None), w'))"

subsection \<open>Dispatch as the specification describes it\<close>

text \<open>
  The definitions of this subsection follow the words of the specification; the
  properties below compare the loops of the runner with them.

  The dispatch order lists the handlers of an event type with the path of their hook:
  hooks in load order, and the handlers of one hook in registration order.
  \<open>observed\<close> is what an emission of \<open>emit\<close> or \<open>emitContext\<close> sees of one handler
  call: the value the handler resolved with, or an error message; a call whose timer
  fires first is an error that cites the timeout, and only the session event with the
  reason \<open>before_compact\<close> is waited for without a timer (\<open>None\<close>: the wait never
  ends). A call fails when an error is observed, and it cancels when the event is a
  session event and a result with the \<open>cancel\<close> flag is observed. The calls dispatched
  for an event are those of the dispatch order up to and including the first that
  cancels. Each failed call is reported once to every error listener. A call is
  accepted when it does not fail, or when no error listener throws on its error.
\<close>

definition handlers_for :: "loaded_hook \<Rightarrow> string \<Rightarrow> handler list" where
  "handlers_for hook ty = (case handlers hook ty of None \<Rightarrow> [] | Some hs \<Rightarrow> hs)"

definition dispatch_order :: "loaded_hook list \<Rightarrow> string \<Rightarrow> (string \<times> handler) list" where
  "dispatch_order hs ty =
     concat (map (\<lambda>hook. map (\<lambda>h. (path hook, h)) (handlers_for hook ty)) hs)"

definition observed ::
  "hook_runner \<Rightarrow> hook_event \<Rightarrow> handler \<Rightarrow> (string + handler_result option) option" where
  "observed r ev h =
     (case run h ev (createContext r) of
        Settles d s \<Rightarrow>
          if isBeforeCompact ev \<or> handler_first d (timeout r)
          then Some (case s of Resolved v \<Rightarrow> Inr v | Rejected e \<Rightarrow> Inl e)
          else Some (Inl (timeout_message (timeout r)))
      | Never_settles \<Rightarrow>
          if isBeforeCompact ev then None else Some (Inl (timeout_message (timeout r))))"

definition failure :: "hook_runner \<Rightarrow> hook_event \<Rightarrow> handler \<Rightarrow> string option" where
  "failure r ev h = (case observed r ev h of Some (Inl message) \<Rightarrow> Some message | _ \<Rightarrow> None)"

definition cancels :: "hook_runner \<Rightarrow> hook_event \<Rightarrow> handler \<Rightarrow> bool" where
  "cancels r ev h =
     (event_type ev = ''session'' \<and>
      (case observed r ev h of Some (Inr (Some res)) \<Rightarrow> cancel res | _ \<Rightarrow> False))"


definition errors_reported ::
  "hook_runner \<Rightarrow> hook_event \<Rightarrow> (string \<times> handler) list \<Rightarrow> (string \<times> hook_error) list" where
  "errors_reported r ev calls =
     concat (map (\<lambda>(p, h). case failure r ev h of
                     None \<Rightarrow> []
                   | Some message \<Rightarrow>
                       map (\<lambda>l.
                              (listener_name l,
                               \<lparr>hookPath = p, event = event_type ev, error_msg = message\<rparr>))
                         (set_values (errorListeners r)))
               calls)"

definition quiet :: "hook_runner \<Rightarrow> hook_error \<Rightarrow> bool" where
  "quiet r err = list_all (\<lambda>l. react l err = None) (set_values (errorListeners r))"

definition accepted :: "hook_runner \<Rightarrow> hook_event \<Rightarrow> string \<times> handler \<Rightarrow> bool" where
  "accepted r ev call =
     (case failure r ev (snd call) of
        None \<Rightarrow> True
      | Some message \<Rightarrow>
          quiet r \<lparr>hookPath = fst call, event = event_type ev, error_msg = message\<rparr>)"

definition calls_logged :: "hook_event \<Rightarrow> (string \<times> handler) list \<Rightarrow> (string \<times> string \<times> hook_event) list"
  where
  "calls_logged ev calls = map (\<lambda>(p, h). (p, handler_name h, ev)) calls"

text \<open>
  The inner loop of \<open>emit\<close> run over a list of calls from several hooks; the proofs
  relate the nested loops to the dispatch order through it.
\<close>

fun emit_flat ::
  "hook_runner \<Rightarrow> hook_event_context \<Rightarrow> hook_event \<Rightarrow> (string \<times> handler) list \<Rightarrow>
     handler_result option \<Rightarrow> world \<Rightarrow>
     (string \<times> world + handler_result option flow) option" where
  "emit_flat r ctx ev [] result w = Some (Inr (Running result w))"
| "emit_flat r ctx ev ((p, h) # calls) result w =
     (case emit_handlers r ctx ev p [h] result w of
        None \<Rightarrow> None
      | Some (Inl thrown) \<Rightarrow> Some (Inl thrown)
      | Some (Inr (Returned res w')) \<Rightarrow> Some (Inr (Returned res w'))
      | Some (Inr (Running res w')) \<Rightarrow> emit_flat r ctx ev calls res w')"

fun flow_world :: "'a flow \<Rightarrow> world" where
  "flow_world (Running v w) = w"
| "flow_world (Returned v w) = w"








subsection \<open>Example hooks\<close>

text \<open>
  Handlers with a fixed behaviour, listeners that return or throw on every error, hooks
  with handlers for one event type, and a runner with the default timeout, for the
  examples below.
\<close>

definition example_listener :: "string \<Rightarrow> string option \<Rightarrow> listener" where
  "example_listener name thrown = \<lparr>listener_name = name, react = \<lambda>err. thrown\<rparr>"

definition example_handler :: "string \<Rightarrow> behaviour \<Rightarrow> handler" where
  "example_handler name b = \<lparr>handler_name = name, run = \<lambda>ev ctx. b\<rparr>"

definition example_hook :: "string \<Rightarrow> string \<Rightarrow> handler list \<Rightarrow> loaded_hook" where
  "example_hook p ty hs = \<lparr>path = p, handlers = [ty \<mapsto> hs]\<rparr>"

definition example_runner :: "listener list \<Rightarrow> loaded_hook list \<Rightarrow> hook_runner" where
  "example_runner ls hs =
     \<lparr>hooks = hs, runner_hasUI = False, runner_cwd = ''/work'', timeout = 30000,
      errorListeners = Set_of ls\<rparr>"

definition example_event :: "string \<Rightarrow> string \<Rightarrow> hook_event" where
  "example_event ty why =
     \<lparr>event_type = ty, reason = Some why, event_messages = None, event_data = []\<rparr>"

definition new_world :: world where
  "new_world =
     \<lparr>invoked = [], delivered = [], clock = 0, timers_created = 0, scheduled = []\<rparr>"

definition example_result :: "bool \<Rightarrow> agent_message list option \<Rightarrow> handler_result" where
  "example_result c msgs = \<lparr>cancel = c, block = False, result_messages = msgs, result_data = []\<rparr>"

section \<open>Properties of the branch preparer\<close>

lemma messages_of_Nil [simp]: "messages_of [] = []"
  by (simp add: messages_of_def)

lemma messages_of_Cons:
  "messages_of (e # es) =
     (case getMessageFromEntry e of None \<Rightarrow> messages_of es | Some m \<Rightarrow> m # messages_of es)"
  by (simp add: messages_of_def split: option.splits)

lemma messages_of_append [simp]: "messages_of (xs @ ys) = messages_of xs @ messages_of ys"
  by (induction xs) (simp_all add: messages_of_Cons split: option.splits)

lemma messages_of_rev: "messages_of (rev xs) = rev (messages_of xs)"
  by (induction xs) (simp_all add: messages_of_Cons split: option.splits)

lemma tokens_of_Nil [simp]: "tokens_of est [] = 0"
  by (simp add: tokens_of_def)

lemma tokens_of_Cons:
  "tokens_of est (e # es) =
     (case getMessageFromEntry e of None \<Rightarrow> 0 | Some m \<Rightarrow> int (est m)) + tokens_of est es"
  by (simp add: tokens_of_def messages_of_Cons split: option.splits)

lemma tokens_of_append [simp]: "tokens_of est (xs @ ys) = tokens_of est xs + tokens_of est ys"
  by (simp add: tokens_of_def)

lemma tokens_of_rev: "tokens_of est (rev xs) = tokens_of est xs"
  by (simp add: tokens_of_def messages_of_rev rev_map [symmetric])

lemma tokens_of_nonneg: "0 \<le> tokens_of est xs"
  by (induction xs) (simp_all add: tokens_of_Cons split: option.splits)

lemma prepare_loop_budget:
  assumes "0 < B" and "totalTokens acc \<le> B"
  shows "totalTokens (prepare_loop est B es acc) \<le> B \<or>
    (\<exists>newer e older m. es = newer @ e # older \<and> is_summary_entry e \<and>
       getMessageFromEntry e = Some m \<and>
       messages (prepare_loop est B es acc) = m # rev (messages_of newer) @ messages acc \<and>
       totalTokens (prepare_loop est B es acc) = totalTokens acc + tokens_of est newer + int (est m) \<and>
       10 * (totalTokens acc + tokens_of est newer) < 9 * B \<and>
       totalTokens acc + tokens_of est newer \<le> B)"
  using assms(2)
proof (induction es arbitrary: acc)
  case Nil
  then show ?case by simp
next
  case (Cons entry es)
  show ?case
  proof (cases "getMessageFromEntry entry")
    case None
    from Cons.IH [OF Cons.prems] show ?thesis
    proof
      assume "totalTokens (prepare_loop est B es acc) \<le> B"
      with None show ?thesis by simp
    next
      assume "\<exists>newer e older m. es = newer @ e # older \<and> is_summary_entry e \<and>
       getMessageFromEntry e = Some m \<and>
       messages (prepare_loop est B es acc) = m # rev (messages_of newer) @ messages acc \<and>
       totalTokens (prepare_loop est B es acc) = totalTokens acc + tokens_of est newer + int (est m) \<and>
       10 * (totalTokens acc + tokens_of est newer) < 9 * B \<and>
       totalTokens acc + tokens_of est newer \<le> B"
      then obtain newer e older m where h: "es = newer @ e # older" "is_summary_entry e"
       "getMessageFromEntry e = Some m"
       "messages (prepare_loop est B es acc) = m # rev (messages_of newer) @ messages acc"
       "totalTokens (prepare_loop est B es acc) = totalTokens acc + tokens_of est newer + int (est m)"
       "10 * (totalTokens acc + tokens_of est newer) < 9 * B"
       "totalTokens acc + tokens_of est newer \<le> B" by blast
      have "entry # es = (entry # newer) @ e # older" using h(1) by simp
      moreover have "messages_of (entry # newer) = messages_of newer"
        using None by (simp add: messages_of_Cons)
      moreover have "tokens_of est (entry # newer) = tokens_of est newer"
        using None by (simp add: tokens_of_Cons)
      ultimately show ?thesis using h None
        apply (intro disjI2)
        apply (rule exI [of _ "entry # newer"], rule exI [of _ e], rule exI [of _ older], rule exI [of _ m])
        by simp
    qed
  next
    case (Some m0)
    let ?ops = "extractFileOpsFromMessage m0 (fileOps acc)"
    let ?t = "int (est m0)"
    show ?thesis
    proof (cases "0 < B \<and> totalTokens acc + ?t > B")
      case True
      show ?thesis
      proof (cases "is_summary_entry entry \<and> 10 * totalTokens acc < 9 * B")
        case True
        have r: "prepare_loop est B (entry # es) acc = admit m0 ?t ?ops acc"
          using Some \<open>0 < B \<and> totalTokens acc + ?t > B\<close> True by (simp add: Let_def)
        show ?thesis
          apply (intro disjI2)
          apply (rule exI [of _ "[]"], rule exI [of _ entry], rule exI [of _ es], rule exI [of _ m0])
          unfolding r using True Some Cons.prems by (simp add: admit_def)
      next
        case False
        have r: "prepare_loop est B (entry # es) acc = acc\<lparr>fileOps := ?ops\<rparr>"
          using Some \<open>0 < B \<and> totalTokens acc + ?t > B\<close> False by (auto simp: Let_def)
        show ?thesis unfolding r using Cons.prems by simp
      qed
    next
      case False
      let ?acc = "admit m0 ?t ?ops acc"
      have r: "prepare_loop est B (entry # es) acc = prepare_loop est B es ?acc"
        using Some False by (auto simp: Let_def)
      have le: "totalTokens ?acc \<le> B" using False assms(1) by (simp add: admit_def)
      from Cons.IH [OF le] show ?thesis
      proof
        assume "totalTokens (prepare_loop est B es ?acc) \<le> B"
        then show ?thesis unfolding r by simp
      next
        assume "\<exists>newer e older m. es = newer @ e # older \<and> is_summary_entry e \<and>
       getMessageFromEntry e = Some m \<and>
       messages (prepare_loop est B es ?acc) = m # rev (messages_of newer) @ messages ?acc \<and>
       totalTokens (prepare_loop est B es ?acc) = totalTokens ?acc + tokens_of est newer + int (est m) \<and>
       10 * (totalTokens ?acc + tokens_of est newer) < 9 * B \<and>
       totalTokens ?acc + tokens_of est newer \<le> B"
        then obtain newer e older m where h: "es = newer @ e # older" "is_summary_entry e"
         "getMessageFromEntry e = Some m"
         "messages (prepare_loop est B es ?acc) = m # rev (messages_of newer) @ messages ?acc"
         "totalTokens (prepare_loop est B es ?acc) = totalTokens ?acc + tokens_of est newer + int (est m)"
         "10 * (totalTokens ?acc + tokens_of est newer) < 9 * B"
         "totalTokens ?acc + tokens_of est newer \<le> B" by blast
        have "entry # es = (entry # newer) @ e # older" using h(1) by simp
        moreover have "messages_of (entry # newer) = m0 # messages_of newer"
          using Some by (simp add: messages_of_Cons)
        moreover have "tokens_of est (entry # newer) = ?t + tokens_of est newer"
          using Some by (simp add: tokens_of_Cons)
        ultimately show ?thesis unfolding r using h
          apply (intro disjI2)
          apply (rule exI [of _ "entry # newer"], rule exI [of _ e], rule exI [of _ older], rule exI [of _ m])
          by (simp add: admit_def)
      qed
    qed
  qed
qed

text \<open>
  C1. With a positive token budget, the token total of the preparation stays within the
  budget, unless one compaction or branch-summary entry \<open>e\<close> was admitted past it: then
  every extractable entry newer than \<open>e\<close> was admitted within the budget, their total
  was below 90 percent of the budget when \<open>e\<close> came up, \<open>e\<close> is the oldest admitted
  message, and nothing older than \<open>e\<close> was looked at. So the allowance is used at most
  once in a call and the iteration stops with it.
\<close>

theorem prepare_total_within_budget:
  assumes "0 < tokenBudget"
  shows "totalTokens (prepareBranchEntries est es tokenBudget) \<le> tokenBudget \<or>
    (\<exists>older e newer m. es = older @ e # newer \<and> is_summary_entry e \<and>
       getMessageFromEntry e = Some m \<and>
       messages (prepareBranchEntries est es tokenBudget) = m # messages_of newer \<and>
       totalTokens (prepareBranchEntries est es tokenBudget) =
         tokens_of est newer + int (est m) \<and>
       tokenBudget < tokens_of est newer + int (est m) \<and>
       10 * tokens_of est newer < 9 * tokenBudget \<and>
       tokens_of est newer \<le> tokenBudget)"
proof -
  let ?init = "\<lparr>messages = [],
      fileOps = \<lparr>read = new_Set, written = new_Set, edited = new_Set\<rparr>,
      totalTokens = 0\<rparr>"
  let ?r = "prepare_loop est tokenBudget (rev es) ?init"
  have r: "prepareBranchEntries est es tokenBudget = ?r"
    by (simp add: prepareBranchEntries_def)
  have "totalTokens ?init \<le> tokenBudget" using assms by simp
  from prepare_loop_budget [OF assms this, of est "rev es"]
  show ?thesis
  proof
    assume "totalTokens ?r \<le> tokenBudget"
    then show ?thesis unfolding r by (rule disjI1)
  next
    assume "\<exists>newer e older m. rev es = newer @ e # older \<and> is_summary_entry e \<and>
       getMessageFromEntry e = Some m \<and>
       messages ?r = m # rev (messages_of newer) @ messages ?init \<and>
       totalTokens ?r = totalTokens ?init + tokens_of est newer + int (est m) \<and>
       10 * (totalTokens ?init + tokens_of est newer) < 9 * tokenBudget \<and>
       totalTokens ?init + tokens_of est newer \<le> tokenBudget"
    then obtain newer e older m where h: "rev es = newer @ e # older"
      "is_summary_entry e" "getMessageFromEntry e = Some m"
      "messages ?r = m # rev (messages_of newer) @ messages ?init"
      "totalTokens ?r = totalTokens ?init + tokens_of est newer + int (est m)"
      "10 * (totalTokens ?init + tokens_of est newer) < 9 * tokenBudget"
      "totalTokens ?init + tokens_of est newer \<le> tokenBudget"
      by blast
    from h(1) have "rev (rev es) = rev (newer @ e # older)" by simp
    then have e: "es = rev older @ e # rev newer" by simp
    show ?thesis
    proof (cases "totalTokens ?r \<le> tokenBudget")
      case True
      then show ?thesis unfolding r by (rule disjI1)
    next
      case False
      with h e show ?thesis unfolding r
        apply (intro disjI2)
        apply (rule exI [of _ "rev older"], rule exI [of _ e], rule exI [of _ "rev newer"],
            rule exI [of _ m])
        by (simp add: messages_of_rev tokens_of_rev)
    qed
  qed
qed

theorem prepare_total_within_budget_witness:
  "(0::int) < 100 \<and>
   prepareBranchEntries
     (\<lambda>m. case m of CompactionSummaryMessage _ _ _ \<Rightarrow> 50 | _ \<Rightarrow> 80)
     [\<lparr>entry_id = ''c'', parentId = None, timestamp = 0, payload = Compaction ''s'' 1000\<rparr>,
      \<lparr>entry_id = ''u'', parentId = Some ''c'', timestamp = 1,
         payload = Message (UserMessage (Str ''hi''))\<rparr>] 100 =
   \<lparr>messages = [CompactionSummaryMessage ''s'' 1000 0, UserMessage (Str ''hi'')],
    fileOps = \<lparr>read = new_Set, written = new_Set, edited = new_Set\<rparr>,
    totalTokens = 130\<rparr>"
  using prepare_total_within_budget [of 100
      "\<lambda>m. case m of CompactionSummaryMessage _ _ _ \<Rightarrow> 50 | _ \<Rightarrow> 80"
      "[\<lparr>entry_id = ''c'', parentId = None, timestamp = 0, payload = Compaction ''s'' 1000\<rparr>,
        \<lparr>entry_id = ''u'', parentId = Some ''c'', timestamp = 1,
           payload = Message (UserMessage (Str ''hi''))\<rparr>]"]
  by (simp add: prepareBranchEntries_def getMessageFromEntry_def is_summary_entry_def
      admit_def createCompactionSummaryMessage_def)

section \<open>Properties of the file-operations report and of summary generation\<close>

lemma set_values_new_Set [simp]: "set_values new_Set = []"
  by transfer simp

lemma set_values_set_add [simp]:
  "set_values (set_add x s) = (if x \<in> set (set_values s) then set_values s else set_values s @ [x])"
  by transfer simp

lemma distinct_set_values [simp]: "distinct (set_values s)"
  by transfer simp

lemma set_values_inject: "set_values s = set_values t \<longleftrightarrow> s = t"
  by transfer simp

lemma set_has_set_add [simp]: "set_has (set_add x s) y \<longleftrightarrow> y = x \<or> set_has s y"
  by (auto simp: set_has_def)

lemma fold_set_add_elems:
  "set (set_values (fold set_add xs s)) = set xs \<union> set (set_values s)"
  by (induction xs arbitrary: s) auto

lemma set_Set_of [simp]: "set (set_values (Set_of xs)) = set xs"
  by (simp add: Set_of_def fold_set_add_elems)

lemma format_lists:
  fixes ops :: file_operations
  defines "M \<equiv> sort (set_values (Set_of (set_values (edited ops) @ set_values (written ops))))"
  defines "R \<equiv> sort (filter (\<lambda>f. \<not> set_has (Set_of (set_values (edited ops) @ set_values (written ops))) f) (set_values (read ops)))"
  shows "sorted R" "distinct R" "sorted M" "distinct M"
    "set M = set (set_values (written ops)) \<union> set (set_values (edited ops))"
    "set R = set (set_values (read ops)) - (set (set_values (written ops)) \<union> set (set_values (edited ops)))"
    "formatFileOperations ops =
      (if R = [] \<and> M = [] then []
       else if M = [] then nl @ nl @ ''<read-files>'' @ nl @ join nl R @ nl @ ''</read-files>''
       else if R = [] then nl @ nl @ ''<modified-files>'' @ nl @ join nl M @ nl @ ''</modified-files>''
       else nl @ nl @ ''<read-files>'' @ nl @ join nl R @ nl @ ''</read-files>'' @ nl @ nl @
            ''<modified-files>'' @ nl @ join nl M @ nl @ ''</modified-files>'')"
proof -
  show "sorted R" "distinct R" "sorted M" "distinct M" by (simp_all add: R_def M_def)
  show "set M = set (set_values (written ops)) \<union> set (set_values (edited ops))"
    by (auto simp: M_def)
  show "set R = set (set_values (read ops)) - (set (set_values (written ops)) \<union> set (set_values (edited ops)))"
    by (auto simp: R_def set_has_def)
  have M0: "M = [] \<longleftrightarrow> set_size (Set_of (set_values (edited ops) @ set_values (written ops))) = 0"
    unfolding M_def set_size_def
    by (metis length_0_conv set_empty2 set_sort)
  show "formatFileOperations ops =
      (if R = [] \<and> M = [] then []
       else if M = [] then nl @ nl @ ''<read-files>'' @ nl @ join nl R @ nl @ ''</read-files>''
       else if R = [] then nl @ nl @ ''<modified-files>'' @ nl @ join nl M @ nl @ ''</modified-files>''
       else nl @ nl @ ''<read-files>'' @ nl @ join nl R @ nl @ ''</read-files>'' @ nl @ nl @
            ''<modified-files>'' @ nl @ join nl M @ nl @ ''</modified-files>'')"
    using M0 unfolding formatFileOperations_def Let_def R_def [symmetric] M_def [symmetric]
    by (auto simp del: List.sort_key_simps)
qed


text \<open>
  C7. The report is a function of the three sets alone: two records of file operations
  with the same paths in each set, whatever the order in which the paths were added,
  give the same text. The text lists, under the read-files heading, the sorted paths that
  were read and neither written nor edited, each once, and under the modified-files
  heading the sorted paths that were written or edited, each once; a heading with no
  path is left out. A path that was both read and modified is therefore listed under
  modified-files only.
\<close>

theorem formatFileOperations_report:
  assumes "set (set_values (read g)) = set (set_values (read f))"
    and "set (set_values (written g)) = set (set_values (written f))"
    and "set (set_values (edited g)) = set (set_values (edited f))"
  shows "formatFileOperations g = formatFileOperations f \<and>
    (\<exists>R M. sorted R \<and> distinct R \<and> sorted M \<and> distinct M \<and>
       set M = set (set_values (written f)) \<union> set (set_values (edited f)) \<and>
       set R = set (set_values (read f)) - set M \<and>
       formatFileOperations f =
         (if R = [] \<and> M = [] then []
          else if M = [] then
            nl @ nl @ ''<read-files>'' @ nl @ join nl R @ nl @ ''</read-files>''
          else if R = [] then
            nl @ nl @ ''<modified-files>'' @ nl @ join nl M @ nl @ ''</modified-files>''
          else
            nl @ nl @ ''<read-files>'' @ nl @ join nl R @ nl @ ''</read-files>'' @ nl @ nl @
            ''<modified-files>'' @ nl @ join nl M @ nl @ ''</modified-files>''))"
proof -
  let ?M = "\<lambda>ops. sort (set_values (Set_of (set_values (edited ops) @ set_values (written ops))))"
  let ?R = "\<lambda>ops. sort (filter (\<lambda>f. \<not> set_has (Set_of (set_values (edited ops) @
      set_values (written ops))) f) (set_values (read ops)))"
  have "set (?M g) = set (?M f)"
    unfolding format_lists(5) using assms by simp
  then have M: "?M g = ?M f"
    by (intro sorted_distinct_set_unique format_lists)
  have "set (?R g) = set (?R f)"
    unfolding format_lists(6) using assms by simp
  then have R: "?R g = ?R f"
    by (intro sorted_distinct_set_unique format_lists)
  have same: "formatFileOperations g = formatFileOperations f"
    by (simp only: format_lists(7) M R)
  have "sorted (?R f) \<and> distinct (?R f) \<and> sorted (?M f) \<and> distinct (?M f) \<and>
       set (?M f) = set (set_values (written f)) \<union> set (set_values (edited f)) \<and>
       set (?R f) = set (set_values (read f)) - set (?M f)"
    by (simp only: format_lists simp_thms)
  with format_lists(7) [of f] same show ?thesis
    by blast
qed

theorem formatFileOperations_report_witness:
  "set (set_values (set_add ''b'' (set_add ''c'' (set_add ''a'' new_Set)))) =
     set (set_values (set_add ''c'' (set_add ''a'' (set_add ''b'' new_Set)))) \<and>
   formatFileOperations
     \<lparr>read = set_add ''b'' (set_add ''c'' (set_add ''a'' new_Set)),
      written = set_add ''c'' new_Set, edited = new_Set\<rparr> =
   formatFileOperations
     \<lparr>read = set_add ''c'' (set_add ''a'' (set_add ''b'' new_Set)),
      written = set_add ''c'' new_Set, edited = new_Set\<rparr> \<and>
   formatFileOperations
     \<lparr>read = set_add ''c'' (set_add ''a'' (set_add ''b'' new_Set)),
      written = set_add ''c'' new_Set, edited = new_Set\<rparr> =
   nl @ nl @ ''<read-files>'' @ nl @ ''a'' @ nl @ ''b'' @ nl @ ''</read-files>'' @ nl @ nl @
   ''<modified-files>'' @ nl @ ''c'' @ nl @ ''</modified-files>''"
proof -
  have s: "set (set_values (set_add ''b'' (set_add ''c'' (set_add ''a'' new_Set)))) =
     set (set_values (set_add ''c'' (set_add ''a'' (set_add ''b'' new_Set))))"
    by auto
  have t: "formatFileOperations
     \<lparr>read = set_add ''c'' (set_add ''a'' (set_add ''b'' new_Set)),
      written = set_add ''c'' new_Set, edited = new_Set\<rparr> =
   nl @ nl @ ''<read-files>'' @ nl @ ''a'' @ nl @ ''b'' @ nl @ ''</read-files>'' @ nl @ nl @
   ''<modified-files>'' @ nl @ ''c'' @ nl @ ''</modified-files>''"
    by (simp add: formatFileOperations_def Set_of_def set_has_def set_size_def)
  from formatFileOperations_report [of
      "\<lparr>read = set_add ''b'' (set_add ''c'' (set_add ''a'' new_Set)),
        written = set_add ''c'' new_Set, edited = new_Set\<rparr>"
      "\<lparr>read = set_add ''c'' (set_add ''a'' (set_add ''b'' new_Set)),
        written = set_add ''c'' new_Set, edited = new_Set\<rparr>"] s
  have "formatFileOperations
     \<lparr>read = set_add ''b'' (set_add ''c'' (set_add ''a'' new_Set)),
      written = set_add ''c'' new_Set, edited = new_Set\<rparr> =
   formatFileOperations
     \<lparr>read = set_add ''c'' (set_add ''a'' (set_add ''b'' new_Set)),
      written = set_add ''c'' new_Set, edited = new_Set\<rparr>"
    by simp
  with s t show ?thesis by (intro conjI)
qed

text \<open>
  C8. When no message survives the preparation under the budget (the context window, or
  128000 when it is unknown, minus the reserved tokens, 16384 by default),
  \<open>generateBranchSummary\<close> returns the fixed summary and makes no call to the
  completion function.
\<close>

theorem generateBranchSummary_no_content:
  assumes "messages (prepareBranchEntries est es
      ((case contextWindow options of None \<Rightarrow> 128000 | Some w \<Rightarrow> if w = 0 then 128000 else w) -
       (case reserveTokens options of None \<Rightarrow> 16384 | Some r \<Rightarrow> r))) = []"
  shows "generateBranchSummary est complete now es options =
    (\<lparr>summary = Some ''No content to summarize'', aborted = None, error = None\<rparr>, [])"
  using assms by (simp add: generateBranchSummary_def Let_def)

theorem generateBranchSummary_no_content_witness:
  "messages (prepareBranchEntries (\<lambda>m. 200)
      [\<lparr>entry_id = ''u'', parentId = None, timestamp = 1,
         payload = Message (UserMessage (Str ''hi''))\<rparr>]
      ((case Some 1000 of None \<Rightarrow> 128000 | Some w \<Rightarrow> if w = 0 then 128000 else w) -
       (case Some 900 of None \<Rightarrow> 16384 | Some r \<Rightarrow> r))) = [] \<and>
   generateBranchSummary (\<lambda>m. 200)
      (\<lambda>request. \<lparr>stopReason = ''stop'', content = [TextContent ''x''], errorMessage = None\<rparr>) 0
      [\<lparr>entry_id = ''u'', parentId = None, timestamp = 1,
         payload = Message (UserMessage (Str ''hi''))\<rparr>]
      \<lparr>contextWindow = Some 1000, apiKey = ''k'', signal = False,
        customInstructions = None, reserveTokens = Some 900\<rparr> =
    (\<lparr>summary = Some ''No content to summarize'', aborted = None, error = None\<rparr>, [])"
  using generateBranchSummary_no_content [of "\<lambda>m. 200"
      "[\<lparr>entry_id = ''u'', parentId = None, timestamp = 1,
         payload = Message (UserMessage (Str ''hi''))\<rparr>]"
      "\<lparr>contextWindow = Some 1000, apiKey = ''k'', signal = False,
        customInstructions = None, reserveTokens = Some 900\<rparr>"
      "\<lambda>request. \<lparr>stopReason = ''stop'', content = [TextContent ''x''], errorMessage = None\<rparr>" 0]
  by (simp add: prepareBranchEntries_def getMessageFromEntry_def is_summary_entry_def)

section \<open>File operations of a message that is not admitted\<close>

lemma prepare_loop_all_fit:
  assumes "totalTokens acc + tokens_of est xs \<le> B"
  shows "prepare_loop est B (xs @ ys) acc = prepare_loop est B ys (prepare_loop est B xs acc) \<and>
    messages (prepare_loop est B xs acc) = rev (messages_of xs) @ messages acc \<and>
    totalTokens (prepare_loop est B xs acc) = totalTokens acc + tokens_of est xs"
  using assms
proof (induction xs arbitrary: acc)
  case Nil
  then show ?case by simp
next
  case (Cons e xs)
  show ?case
  proof (cases "getMessageFromEntry e")
    case None
    with Cons.prems have "totalTokens acc + tokens_of est xs \<le> B"
      by (simp add: tokens_of_Cons)
    from Cons.IH [OF this] None show ?thesis
      by (simp add: tokens_of_Cons messages_of_Cons)
  next
    case (Some m)
    let ?acc = "admit m (int (est m)) (extractFileOpsFromMessage m (fileOps acc)) acc"
    from Some Cons.prems have le: "totalTokens ?acc + tokens_of est xs \<le> B"
      by (simp add: tokens_of_Cons admit_def)
    have "0 \<le> tokens_of est xs" by (rule tokens_of_nonneg)
    with le have fit: "\<not> (0 < B \<and> B < totalTokens acc + int (est m))"
      by (simp add: admit_def)
    have step: "prepare_loop est B (e # zs) acc = prepare_loop est B zs ?acc" for zs
      using Some fit by (auto simp: Let_def)
    from Cons.IH [OF le] show ?thesis
      unfolding append_Cons step using Some
      by (simp add: tokens_of_Cons messages_of_Cons admit_def)
  qed
qed

lemma paths_kept_by_block:
  "set_has (read ops) p \<Longrightarrow> set_has (read (extractFileOpsFromBlock b ops)) p"
  "set_has (written ops) p \<Longrightarrow> set_has (written (extractFileOpsFromBlock b ops)) p"
  "set_has (edited ops) p \<Longrightarrow> set_has (edited (extractFileOpsFromBlock b ops)) p"
  by (induction b ops rule: extractFileOpsFromBlock.induct;
      auto split: option.splits jvalue.splits)+

lemma paths_kept_by_blocks:
  "set_has (read ops) p \<Longrightarrow> set_has (read (fold extractFileOpsFromBlock bs ops)) p"
  "set_has (written ops) p \<Longrightarrow> set_has (written (fold extractFileOpsFromBlock bs ops)) p"
  "set_has (edited ops) p \<Longrightarrow> set_has (edited (fold extractFileOpsFromBlock bs ops)) p"
  by (induction bs arbitrary: ops; simp add: paths_kept_by_block)+

lemma path_recorded:
  assumes "ToolCall i name (Some args) \<in> set bs"
    and "map_of args ''path'' = Some (JString p)" and "p \<noteq> []"
  shows "(name = ''read'' \<longrightarrow> set_has (read (fold extractFileOpsFromBlock bs ops)) p) \<and>
    (name = ''write'' \<longrightarrow> set_has (written (fold extractFileOpsFromBlock bs ops)) p) \<and>
    (name = ''edit'' \<longrightarrow> set_has (edited (fold extractFileOpsFromBlock bs ops)) p)"
  using assms(1)
proof (induction bs arbitrary: ops)
  case Nil
  then show ?case by simp
next
  case (Cons b bs)
  show ?case
  proof (cases "b = ToolCall i name (Some args)")
    case True
    with assms(2,3) have
      "(name = ''read'' \<longrightarrow> set_has (read (extractFileOpsFromBlock b ops)) p) \<and>
       (name = ''write'' \<longrightarrow> set_has (written (extractFileOpsFromBlock b ops)) p) \<and>
       (name = ''edit'' \<longrightarrow> set_has (edited (extractFileOpsFromBlock b ops)) p)"
      by simp
    then show ?thesis by (simp add: paths_kept_by_blocks)
  next
    case False
    with Cons show ?thesis by simp
  qed
qed

text \<open>
  C10. File operations are recorded before the budget test. When the entries newer than
  an assistant message fit the budget and the message itself does not, the message is
  not admitted (the admitted messages are those of the newer entries) and yet the
  returned file operations are those of the newer entries extended by the tool calls of
  that message: the path of each of its read, write and edit calls is in the returned
  sets.
\<close>

theorem fileOps_of_first_over_budget_message:
  assumes "payload e = Message (AssistantMessage (Blocks bs))"
    and "0 < tokenBudget"
    and "tokens_of est newer \<le> tokenBudget"
    and "tokenBudget < tokens_of est newer + int (est (AssistantMessage (Blocks bs)))"
    and "ToolCall i name (Some args) \<in> set bs"
    and "map_of args ''path'' = Some (JString p)" and "p \<noteq> []"
  shows "messages (prepareBranchEntries est (older @ e # newer) tokenBudget) = messages_of newer \<and>
    fileOps (prepareBranchEntries est (older @ e # newer) tokenBudget) =
      extractFileOpsFromMessage (AssistantMessage (Blocks bs))
        (fileOps (prepareBranchEntries est newer tokenBudget)) \<and>
    (name = ''read'' \<longrightarrow>
      set_has (read (fileOps (prepareBranchEntries est (older @ e # newer) tokenBudget))) p) \<and>
    (name = ''write'' \<longrightarrow>
      set_has (written (fileOps (prepareBranchEntries est (older @ e # newer) tokenBudget))) p) \<and>
    (name = ''edit'' \<longrightarrow>
      set_has (edited (fileOps (prepareBranchEntries est (older @ e # newer) tokenBudget))) p)"
proof -
  let ?m = "AssistantMessage (Blocks bs)"
  let ?init = "\<lparr>messages = [],
      fileOps = \<lparr>read = new_Set, written = new_Set, edited = new_Set\<rparr>,
      totalTokens = 0\<rparr>"
  let ?acc = "prepare_loop est tokenBudget (rev newer) ?init"
  have m: "getMessageFromEntry e = Some ?m"
    using assms(1) by (simp add: getMessageFromEntry_def)
  have ns: "\<not> is_summary_entry e"
    using assms(1) by (simp add: is_summary_entry_def)
  have "totalTokens ?init + tokens_of est (rev newer) \<le> tokenBudget"
    using assms(3) by (simp add: tokens_of_rev)
  from prepare_loop_all_fit [OF this, of "e # rev older"]
  have split: "prepare_loop est tokenBudget (rev newer @ e # rev older) ?init =
      prepare_loop est tokenBudget (e # rev older) ?acc"
    and msgs: "messages ?acc = messages_of newer"
    and tot: "totalTokens ?acc = tokens_of est newer"
    by (simp_all add: messages_of_rev tokens_of_rev)
  have over: "0 < tokenBudget \<and> tokenBudget < totalTokens ?acc + int (est ?m)"
    using assms(2,4) tot by simp
  have stop: "prepare_loop est tokenBudget (e # rev older) ?acc =
      ?acc\<lparr>fileOps := extractFileOpsFromMessage ?m (fileOps ?acc)\<rparr>"
    using m ns over by (auto simp: Let_def)
  have whole: "prepareBranchEntries est (older @ e # newer) tokenBudget =
      ?acc\<lparr>fileOps := extractFileOpsFromMessage ?m (fileOps ?acc)\<rparr>"
  proof -
    have "rev (older @ e # newer) = rev newer @ e # rev older" by simp
    then show ?thesis
      unfolding prepareBranchEntries_def by (simp only: split stop)
  qed
  have part: "prepareBranchEntries est newer tokenBudget = ?acc"
    by (simp add: prepareBranchEntries_def)
  have "(name = ''read'' \<longrightarrow>
      set_has (read (extractFileOpsFromMessage ?m (fileOps ?acc))) p) \<and>
    (name = ''write'' \<longrightarrow>
      set_has (written (extractFileOpsFromMessage ?m (fileOps ?acc))) p) \<and>
    (name = ''edit'' \<longrightarrow>
      set_has (edited (extractFileOpsFromMessage ?m (fileOps ?acc))) p)"
    using path_recorded [OF assms(5-7)] by simp
  then show ?thesis
    unfolding whole part using msgs by simp
qed

theorem fileOps_of_first_over_budget_message_witness:
  "prepareBranchEntries (\<lambda>m. 60)
     [\<lparr>entry_id = ''a'', parentId = None, timestamp = 1,
        payload = Message (AssistantMessage (Blocks
          [ToolCall ''t1'' ''read'' (Some [(''path'', JString ''a.txt'')]),
           ToolCall ''t2'' ''write'' (Some [(''path'', JString ''b.txt'')])]))\<rparr>,
      \<lparr>entry_id = ''u'', parentId = Some ''a'', timestamp = 2,
        payload = Message (UserMessage (Str ''go on''))\<rparr>] 100 =
   \<lparr>messages = [UserMessage (Str ''go on'')],
    fileOps = \<lparr>read = set_add ''a.txt'' new_Set, written = set_add ''b.txt'' new_Set,
      edited = new_Set\<rparr>,
    totalTokens = 60\<rparr> \<and>
   set_has (written (fileOps (prepareBranchEntries (\<lambda>m. 60)
     [\<lparr>entry_id = ''a'', parentId = None, timestamp = 1,
        payload = Message (AssistantMessage (Blocks
          [ToolCall ''t1'' ''read'' (Some [(''path'', JString ''a.txt'')]),
           ToolCall ''t2'' ''write'' (Some [(''path'', JString ''b.txt'')])]))\<rparr>,
      \<lparr>entry_id = ''u'', parentId = Some ''a'', timestamp = 2,
        payload = Message (UserMessage (Str ''go on''))\<rparr>] 100))) ''b.txt''"
proof -
  let ?bs = "[ToolCall ''t1'' ''read'' (Some [(''path'', JString ''a.txt'')]),
           ToolCall ''t2'' ''write'' (Some [(''path'', JString ''b.txt'')])]"
  let ?a = "\<lparr>entry_id = ''a'', parentId = None, timestamp = 1,
        payload = Message (AssistantMessage (Blocks ?bs))\<rparr>"
  let ?u = "\<lparr>entry_id = ''u'', parentId = Some ''a'', timestamp = 2,
        payload = Message (UserMessage (Str ''go on''))\<rparr>"
  have run: "prepareBranchEntries (\<lambda>m. 60) [?a, ?u] 100 =
   \<lparr>messages = [UserMessage (Str ''go on'')],
    fileOps = \<lparr>read = set_add ''a.txt'' new_Set, written = set_add ''b.txt'' new_Set,
      edited = new_Set\<rparr>,
    totalTokens = 60\<rparr>"
    by (simp add: prepareBranchEntries_def getMessageFromEntry_def is_summary_entry_def
        admit_def)
  have "tokens_of (\<lambda>m. 60) [?u] = 60"
    by (simp add: tokens_of_Cons getMessageFromEntry_def)
  with fileOps_of_first_over_budget_message [of ?a ?bs 100 "\<lambda>m. 60" "[?u]" "''t2''" "''write''"
      "[(''path'', JString ''b.txt'')]" "''b.txt''" "[]"]
  have "set_has (written (fileOps (prepareBranchEntries (\<lambda>m. 60) [?a, ?u] 100))) ''b.txt''"
    by simp
  with run show ?thesis by (intro conjI)
qed

section \<open>Properties of the branch collector\<close>

lemma getEntry_id: "getEntry s i = Some e \<Longrightarrow> entry_id e = i"
  by (auto simp: getEntry_def find_Some_iff)

lemma getPath_Nil: "getPath s i = Some [] \<longleftrightarrow> getEntry s i = None"
  by (subst getPath.simps) (auto split: option.splits simp: bind_eq_Some_conv)

lemma getPath_Cons:
  "getPath s i = Some (e # rest) \<longleftrightarrow>
     getEntry s i = Some e \<and>
     (case parentId e of None \<Rightarrow> rest = [] | Some p \<Rightarrow> getPath s p = Some rest)"
  by (subst getPath.simps) (auto split: option.splits simp: bind_eq_Some_conv)

lemma path_suffix:
  "getPath s i = Some (xs @ e # ys) \<Longrightarrow> getPath s (entry_id e) = Some (e # ys)"
proof (induction xs arbitrary: i)
  case Nil
  then have "getEntry s i = Some e" by (simp add: getPath_Cons)
  then have "entry_id e = i" by (rule getEntry_id)
  with Nil show ?case by simp
next
  case (Cons x xs)
  then show ?case
    by (cases "parentId x") (auto simp: getPath_Cons)
qed

lemma path_distinct: "getPath s i = Some P \<Longrightarrow> distinct (map entry_id P)"
proof (induction P arbitrary: i)
  case Nil
  then show ?case by simp
next
  case (Cons e rest)
  then have e: "getEntry s i = Some e" by (simp add: getPath_Cons)
  then have i: "entry_id e = i" by (rule getEntry_id)
  have d: "distinct (map entry_id rest)"
  proof (cases "parentId e")
    case None
    with Cons.prems show ?thesis by (simp add: getPath_Cons)
  next
    case (Some p)
    with Cons.prems have "getPath s p = Some rest" by (simp add: getPath_Cons)
    then show ?thesis by (rule Cons.IH)
  qed
  have "i \<notin> set (map entry_id rest)"
  proof
    assume "i \<in> set (map entry_id rest)"
    then obtain e' where "e' \<in> set rest" "entry_id e' = i" by auto
    then obtain xs ys where r: "rest = xs @ e' # ys" by (auto simp: in_set_conv_decomp)
    with Cons.prems have "getPath s i = Some ((e # xs) @ e' # ys)" by simp
    from path_suffix [OF this] \<open>entry_id e' = i\<close> have "getPath s i = Some (e' # ys)" by simp
    with Cons.prems have "e # rest = e' # ys" by simp
    with r show False by simp
  qed
  with d i show ?case by simp
qed

lemma collect_loop_path:
  "getPath s i = Some P \<Longrightarrow>
   collect_loop s c (Some i) acc =
     Some (acc @ takeWhile (\<lambda>e. entry_id e \<noteq> [] \<and> Some (entry_id e) \<noteq> c) P)"
proof (induction P arbitrary: i acc)
  case Nil
  then have "getEntry s i = None" by (simp add: getPath_Nil)
  then show ?case by (subst collect_loop.simps) simp
next
  case (Cons e rest)
  then have e: "getEntry s i = Some e" by (simp add: getPath_Cons)
  then have i: "entry_id e = i" by (rule getEntry_id)
  show ?case
  proof (cases "i = [] \<or> Some i = c")
    case True
    then show ?thesis using i by (subst collect_loop.simps) auto
  next
    case False
    then have step: "collect_loop s c (Some i) acc = collect_loop s c (parentId e) (acc @ [e])"
      using e by (subst collect_loop.simps) auto
    show ?thesis
    proof (cases "parentId e")
      case None
      with Cons.prems have "rest = []" by (simp add: getPath_Cons)
      moreover have "collect_loop s c None (acc @ [e]) = Some (acc @ [e])"
        by (subst collect_loop.simps) simp
      ultimately show ?thesis using step None False i by auto
    next
      case (Some p)
      with Cons.prems have "getPath s p = Some rest" by (simp add: getPath_Cons)
      from Cons.IH [OF this, of "acc @ [e]"] step Some False i show ?thesis by auto
    qed
  qed
qed

lemma find_split:
  "find Q xs = Some x \<Longrightarrow> \<exists>ys zs. xs = ys @ x # zs \<and> Q x \<and> (\<forall>y\<in>set ys. \<not> Q y)"
proof (induction xs)
  case Nil
  then show ?case by simp
next
  case (Cons a xs)
  show ?case
  proof (cases "Q a")
    case True
    with Cons.prems have "a = x" by simp
    with True show ?thesis by (intro exI [of _ "[]"] exI [of _ xs]) simp
  next
    case False
    with Cons obtain ys zs where "xs = ys @ x # zs" "Q x" "\<forall>y\<in>set ys. \<not> Q y" by auto
    with False show ?thesis by (intro exI [of _ "a # ys"] exI [of _ zs]) simp
  qed
qed

lemma set_has_Set_of: "set_has (Set_of xs) x \<longleftrightarrow> x \<in> set xs"
  by (simp add: set_has_def)

text \<open>
  C2. Let the ancestor paths of the old leaf and of the target be non-empty and end in
  the same root. Then \<open>collectEntriesForBranchSummary\<close> returns, and the common
  ancestor it returns lies on both paths, with no entry of the other path before it on
  either of them: it is the lowest common ancestor.
\<close>

theorem collect_common_ancestor_lowest:
  assumes old: "oldLeafId \<noteq> []"
    and p1: "getPath s oldLeafId = Some P1" and p2: "getPath s targetId = Some P2"
    and ne: "P1 \<noteq> []" "P2 \<noteq> []"
    and root: "last P1 = last P2"
  shows "\<exists>r a. collectEntriesForBranchSummary s (Some oldLeafId) targetId = Some r \<and>
    commonAncestorId r = Some a \<and>
    (\<exists>near far. map entry_id P1 = near @ a # far \<and> set near \<inter> set (map entry_id P2) = {}) \<and>
    (\<exists>near far. map entry_id P2 = near @ a # far \<and> set near \<inter> set (map entry_id P1) = {})"
proof -
  let ?Q = "\<lambda>entry. set_has (Set_of (map entry_id P1)) (entry_id entry)"
  have Q: "?Q e \<longleftrightarrow> entry_id e \<in> set (map entry_id P1)" for e :: session_entry
    by (rule set_has_Set_of)
  have "last P2 \<in> set P2" using ne by simp
  moreover have "?Q (last P2)"
    unfolding Q using ne(1) root last_in_set [of P1] by auto
  ultimately have "find ?Q P2 \<noteq> None"
    unfolding find_None_iff by blast
  then obtain x where x: "find ?Q P2 = Some x" by blast
  from find_split [OF this] obtain ys zs
    where P2: "P2 = ys @ x # zs" and Qx: "?Q x" and ys: "\<forall>y\<in>set ys. \<not> ?Q y"
    by blast
  from Qx obtain y where "y \<in> set P1" and ya: "entry_id y = entry_id x"
    unfolding Q by auto
  then obtain us vs where P1: "P1 = us @ y # vs" by (auto simp: in_set_conv_decomp)
  have "getPath s (entry_id y) = Some (y # vs)"
    by (rule path_suffix [OF p1 [unfolded P1]])
  moreover have "getPath s (entry_id x) = Some (x # zs)"
    by (rule path_suffix [OF p2 [unfolded P2]])
  ultimately have "Some (y # vs) = Some (x # zs)"
    by (simp only: ya)
  then have same: "y = x" "vs = zs" by (simp_all only: option.inject list.inject)
  have d: "distinct (map entry_id P1)" by (rule path_distinct [OF p1])
  have near1: "set (map entry_id us) \<inter> set (map entry_id P2) = {}"
  proof -
    have "distinct (map entry_id us @ map entry_id (x # zs))"
      using d unfolding P1 same by simp
    then have "set (map entry_id us) \<inter> set (map entry_id (x # zs)) = {}"
      by (simp only: distinct_append)
    moreover have "set (map entry_id us) \<subseteq> set (map entry_id P1)"
      unfolding P1 by auto
    moreover have "set (map entry_id ys) \<inter> set (map entry_id P1) = {}"
      using ys unfolding Q by auto
    moreover have "set (map entry_id P2) = set (map entry_id ys) \<union> set (map entry_id (x # zs))"
      unfolding P2 by simp
    ultimately show ?thesis by blast
  qed
  have near2: "set (map entry_id ys) \<inter> set (map entry_id P1) = {}"
    using ys unfolding Q by auto
  let ?c = "Some (entry_id x)"
  let ?r = "\<lparr>entries = rev (takeWhile (\<lambda>e. entry_id e \<noteq> [] \<and> Some (entry_id e) \<noteq> ?c) P1),
      commonAncestorId = ?c\<rparr>"
  have c: "collectEntriesForBranchSummary s (Some oldLeafId) targetId = Some ?r"
    using old p1 p2 x collect_loop_path [OF p1, of ?c "[]"]
    by (simp add: collectEntriesForBranchSummary_def Let_def)
  have e1: "map entry_id P1 = map entry_id us @ entry_id x # map entry_id vs"
    unfolding P1 same by simp
  have e2: "map entry_id P2 = map entry_id ys @ entry_id x # map entry_id zs"
    unfolding P2 by simp
  show ?thesis
  proof (intro exI conjI)
    show "collectEntriesForBranchSummary s (Some oldLeafId) targetId = Some ?r"
      by (rule c)
    show "commonAncestorId ?r = Some (entry_id x)"
      by simp
    show "map entry_id P1 = map entry_id us @ entry_id x # map entry_id vs"
      by (rule e1)
    show "set (map entry_id us) \<inter> set (map entry_id P2) = {}"
      by (rule near1)
    show "map entry_id P2 = map entry_id ys @ entry_id x # map entry_id zs"
      by (rule e2)
    show "set (map entry_id ys) \<inter> set (map entry_id P1) = {}"
      by (rule near2)
  qed
qed

theorem collect_common_ancestor_lowest_witness:
  "''b'' \<noteq> [] \<and>
   getPath example_session ''b'' =
     Some [example_entry ''b'' (Some ''a''), example_entry ''a'' (Some ''r''),
       example_entry ''r'' None] \<and>
   getPath example_session ''d'' =
     Some [example_entry ''d'' (Some ''c''), example_entry ''c'' (Some ''a''),
       example_entry ''a'' (Some ''r''), example_entry ''r'' None] \<and>
   collectEntriesForBranchSummary example_session (Some ''b'') ''d'' =
     Some \<lparr>entries = [example_entry ''b'' (Some ''a'')], commonAncestorId = Some ''a''\<rparr>"
proof -
  have p1: "getPath example_session ''b'' =
     Some [example_entry ''b'' (Some ''a''), example_entry ''a'' (Some ''r''),
       example_entry ''r'' None]"
    by (simp add: getPath.simps getEntry_def example_session_def example_entry_def)
  have p2: "getPath example_session ''d'' =
     Some [example_entry ''d'' (Some ''c''), example_entry ''c'' (Some ''a''),
       example_entry ''a'' (Some ''r''), example_entry ''r'' None]"
    by (simp add: getPath.simps getEntry_def example_session_def example_entry_def)
  have c: "collectEntriesForBranchSummary example_session (Some ''b'') ''d'' =
     Some \<lparr>entries = [example_entry ''b'' (Some ''a'')], commonAncestorId = Some ''a''\<rparr>"
    by (simp add: collectEntriesForBranchSummary_def getPath.simps collect_loop.simps
        getEntry_def example_session_def example_entry_def Set_of_def set_has_def Let_def)
  have "\<exists>r a. collectEntriesForBranchSummary example_session (Some ''b'') ''d'' = Some r \<and>
      commonAncestorId r = Some a \<and>
      (\<exists>near far. map entry_id [example_entry ''b'' (Some ''a''), example_entry ''a'' (Some ''r''),
          example_entry ''r'' None] = near @ a # far \<and>
        set near \<inter> set (map entry_id [example_entry ''d'' (Some ''c''), example_entry ''c'' (Some ''a''),
          example_entry ''a'' (Some ''r''), example_entry ''r'' None]) = {}) \<and>
      (\<exists>near far. map entry_id [example_entry ''d'' (Some ''c''), example_entry ''c'' (Some ''a''),
          example_entry ''a'' (Some ''r''), example_entry ''r'' None] = near @ a # far \<and>
        set near \<inter> set (map entry_id [example_entry ''b'' (Some ''a''), example_entry ''a'' (Some ''r''),
          example_entry ''r'' None]) = {})"
    by (rule collect_common_ancestor_lowest [OF _ p1 p2]) simp_all
  then obtain r where "collectEntriesForBranchSummary example_session (Some ''b'') ''d'' = Some r"
    by blast
  with c p1 p2 show ?thesis by simp
qed

text \<open>
  C9. For an old leaf that is present, with returning ancestor walks from the old leaf
  and from the target, \<open>collectEntriesForBranchSummary\<close> returns; no returned entry
  has the id of the returned common ancestor; and the returned entries are the entries of
  the path from the old leaf towards the root, up to but without the common ancestor
  (the whole resolvable path when the common ancestor is not on it), in chronological
  order. An entry whose id is the empty string ends the walk like an absent parent.
\<close>

theorem collect_entries_exclude_ancestor:
  assumes old: "oldLeafId \<noteq> []"
    and p1: "getPath s oldLeafId = Some P1" and p2: "getPath s targetId = Some P2"
  shows "\<exists>r. collectEntriesForBranchSummary s (Some oldLeafId) targetId = Some r \<and>
    entries r =
      rev (takeWhile (\<lambda>e. entry_id e \<noteq> [] \<and> Some (entry_id e) \<noteq> commonAncestorId r) P1) \<and>
    (\<forall>e\<in>set (entries r). Some (entry_id e) \<noteq> commonAncestorId r) \<and>
    ((\<forall>e\<in>set P1. entry_id e \<noteq> []) \<longrightarrow>
      entries r = rev (takeWhile (\<lambda>e. Some (entry_id e) \<noteq> commonAncestorId r) P1))"
proof -
  let ?c = "map_option entry_id
      (find (\<lambda>entry. set_has (Set_of (map entry_id P1)) (entry_id entry)) P2)"
  let ?r = "\<lparr>entries = rev (takeWhile (\<lambda>e. entry_id e \<noteq> [] \<and> Some (entry_id e) \<noteq> ?c) P1),
      commonAncestorId = ?c\<rparr>"
  have c: "collectEntriesForBranchSummary s (Some oldLeafId) targetId = Some ?r"
    using old p1 p2 collect_loop_path [OF p1, of ?c "[]"]
    by (simp add: collectEntriesForBranchSummary_def Let_def)
  have sel: "entries ?r = rev (takeWhile (\<lambda>e. entry_id e \<noteq> [] \<and> Some (entry_id e) \<noteq> ?c) P1)"
    "commonAncestorId ?r = ?c"
    by simp_all
  show ?thesis
  proof (intro exI conjI)
    show "collectEntriesForBranchSummary s (Some oldLeafId) targetId = Some ?r"
      by (rule c)
    show "entries ?r =
        rev (takeWhile (\<lambda>e. entry_id e \<noteq> [] \<and> Some (entry_id e) \<noteq> commonAncestorId ?r) P1)"
      by (simp only: sel)
    show "\<forall>e\<in>set (entries ?r). Some (entry_id e) \<noteq> commonAncestorId ?r"
      unfolding sel by (auto dest: set_takeWhileD)
    show "(\<forall>e\<in>set P1. entry_id e \<noteq> []) \<longrightarrow>
        entries ?r = rev (takeWhile (\<lambda>e. Some (entry_id e) \<noteq> commonAncestorId ?r) P1)"
      unfolding sel by (auto intro: takeWhile_cong)
  qed
qed

theorem collect_entries_exclude_ancestor_witness:
  "''d'' \<noteq> [] \<and>
   getPath example_session ''d'' =
     Some [example_entry ''d'' (Some ''c''), example_entry ''c'' (Some ''a''),
       example_entry ''a'' (Some ''r''), example_entry ''r'' None] \<and>
   getPath example_session ''b'' =
     Some [example_entry ''b'' (Some ''a''), example_entry ''a'' (Some ''r''),
       example_entry ''r'' None] \<and>
   collectEntriesForBranchSummary example_session (Some ''d'') ''b'' =
     Some \<lparr>entries = [example_entry ''c'' (Some ''a''), example_entry ''d'' (Some ''c'')],
       commonAncestorId = Some ''a''\<rparr>"
proof -
  have p1: "getPath example_session ''d'' =
     Some [example_entry ''d'' (Some ''c''), example_entry ''c'' (Some ''a''),
       example_entry ''a'' (Some ''r''), example_entry ''r'' None]"
    by (simp add: getPath.simps getEntry_def example_session_def example_entry_def)
  have p2: "getPath example_session ''b'' =
     Some [example_entry ''b'' (Some ''a''), example_entry ''a'' (Some ''r''),
       example_entry ''r'' None]"
    by (simp add: getPath.simps getEntry_def example_session_def example_entry_def)
  have c: "collectEntriesForBranchSummary example_session (Some ''d'') ''b'' =
     Some \<lparr>entries = [example_entry ''c'' (Some ''a''), example_entry ''d'' (Some ''c'')],
       commonAncestorId = Some ''a''\<rparr>"
    by (simp add: collectEntriesForBranchSummary_def getPath.simps collect_loop.simps
        getEntry_def example_session_def example_entry_def Set_of_def set_has_def Let_def)
  have "''d'' \<noteq> []" by simp
  from collect_entries_exclude_ancestor [OF this p1 p2]
  obtain r where "collectEntriesForBranchSummary example_session (Some ''d'') ''b'' = Some r"
    by blast
  with c p1 p2 show ?thesis by simp
qed

section \<open>Properties of the hook runner\<close>

lemma emit_handlers_Cons:
  "emit_handlers r ctx ev p (h # hs) result w =
     (case emit_handlers r ctx ev p [h] result w of
        None \<Rightarrow> None
      | Some (Inl thrown) \<Rightarrow> Some (Inl thrown)
      | Some (Inr (Returned res w')) \<Rightarrow> Some (Inr (Returned res w'))
      | Some (Inr (Running res w')) \<Rightarrow> emit_handlers r ctx ev p hs res w')"
  by (simp split: option.splits sum.splits prod.splits)

lemma emit_handlers_flat:
  "emit_handlers r ctx ev p hs result w = emit_flat r ctx ev (map (\<lambda>h. (p, h)) hs) result w"
proof (induction hs arbitrary: result w)
  case Nil
  then show ?case by simp
next
  case (Cons h hs)
  show ?case
    by (subst emit_handlers_Cons)
      (simp add: Cons.IH split: option.splits sum.splits flow.splits)
qed

lemma emit_flat_append:
  "emit_flat r ctx ev (xs @ ys) result w =
     (case emit_flat r ctx ev xs result w of
        None \<Rightarrow> None
      | Some (Inl thrown) \<Rightarrow> Some (Inl thrown)
      | Some (Inr (Returned res w')) \<Rightarrow> Some (Inr (Returned res w'))
      | Some (Inr (Running res w')) \<Rightarrow> emit_flat r ctx ev ys res w')"
proof (induction xs arbitrary: result w)
  case Nil
  then show ?case by simp
next
  case (Cons x xs)
  obtain p h where x: "x = (p, h)" by (cases x)
  show ?case
    unfolding x append_Cons emit_flat.simps
    by (simp add: Cons.IH split: option.splits sum.splits flow.splits)
qed

lemma emit_hooks_flat:
  "emit_hooks r ctx ev hs result w =
     (case emit_flat r ctx ev (dispatch_order hs (event_type ev)) result w of
        None \<Rightarrow> None
      | Some (Inl (thrown, w')) \<Rightarrow> Some (Inl thrown, w')
      | Some (Inr (Returned res w')) \<Rightarrow> Some (Inr res, w')
      | Some (Inr (Running res w')) \<Rightarrow> Some (Inr res, w'))"
proof (induction hs arbitrary: result w)
  case Nil
  then show ?case by (simp add: dispatch_order_def)
next
  case (Cons hook hs)
  have d: "dispatch_order (hook # hs) (event_type ev) =
      map (\<lambda>h. (path hook, h)) (handlers_for hook (event_type ev)) @
      dispatch_order hs (event_type ev)"
    by (simp add: dispatch_order_def)
  show ?case
  proof (cases "handlers hook (event_type ev)")
    case None
    then show ?thesis
      unfolding d by (simp add: handlers_for_def Cons.IH)
  next
    case (Some hl)
    show ?thesis
    proof (cases "hl = []")
      case True
      with Some show ?thesis
        unfolding d by (simp add: handlers_for_def Cons.IH)
    next
      case False
      with Some show ?thesis
        unfolding d emit_flat_append
        by (simp add: handlers_for_def Cons.IH emit_handlers_flat
            split: option.splits sum.splits flow.splits prod.splits)
    qed
  qed
qed

lemma errors_reported_Nil [simp]: "errors_reported r ev [] = []"
  by (simp add: errors_reported_def)

lemma errors_reported_append [simp]:
  "errors_reported r ev (xs @ ys) = errors_reported r ev xs @ errors_reported r ev ys"
  by (simp add: errors_reported_def)

lemma errors_reported_Cons:
  "errors_reported r ev (x # xs) = errors_reported r ev [x] @ errors_reported r ev xs"
  by (simp add: errors_reported_def)

lemma calls_logged_Nil [simp]: "calls_logged ev [] = []"
  by (simp add: calls_logged_def)

lemma calls_logged_append [simp]:
  "calls_logged ev (xs @ ys) = calls_logged ev xs @ calls_logged ev ys"
  by (simp add: calls_logged_def)

lemma calls_logged_Cons:
  "calls_logged ev ((p, h) # xs) = (p, handler_name h, ev) # calls_logged ev xs"
  by (simp add: calls_logged_def)

lemma emitError_listeners_quiet:
  "list_all (\<lambda>l. react l err = None) ls \<Longrightarrow>
   \<exists>w'. emitError_listeners ls err w = (None, w') \<and> invoked w' = invoked w \<and>
     delivered w' = delivered w @ map (\<lambda>l. (listener_name l, err)) ls"
proof (induction ls arbitrary: w)
  case Nil
  then show ?case by simp
next
  case (Cons l ls)
  then have r: "react l err = None" and rest: "list_all (\<lambda>l. react l err = None) ls"
    by simp_all
  from Cons.IH [OF rest, of "w\<lparr>delivered := delivered w @ [(listener_name l, err)]\<rparr>"]
  show ?case using r by auto
qed

lemma emitError_quiet:
  "quiet r err \<Longrightarrow>
   \<exists>w'. emitError r err w = (None, w') \<and> invoked w' = invoked w \<and>
     delivered w' = delivered w @ map (\<lambda>l. (listener_name l, err)) (set_values (errorListeners r))"
  unfolding quiet_def emitError_def by (rule emitError_listeners_quiet)

lemma invoke_with_timeout_observed:
  assumes "\<not> isBeforeCompact ev"
  shows "\<exists>out w'. invoke_with_timeout (timeout r) p h ev (createContext r) w = (out, w') \<and>
    observed r ev h = Some out \<and>
    invoked w' = invoked w @ [(p, handler_name h, ev)] \<and> delivered w' = delivered w"
  using assms
  by (auto simp: invoke_with_timeout_def observed_def createTimeout_def call_logged_def
      clear_def elapse_def split: behaviour.splits settled.splits)

lemma invoke_without_timeout_observed:
  assumes "isBeforeCompact ev" and "observed r ev h = Some out"
  shows "\<exists>w'. invoke_without_timeout p h ev (createContext r) w = Some (out, w') \<and>
    invoked w' = invoked w @ [(p, handler_name h, ev)] \<and> delivered w' = delivered w"
  using assms
  by (auto simp: invoke_without_timeout_def observed_def call_logged_def elapse_def
      split: behaviour.splits settled.splits)

lemma invoke_observed:
  assumes "observed r ev h = Some out"
  shows "\<exists>w'. (if isBeforeCompact ev then invoke_without_timeout p h ev (createContext r) w
            else Some (invoke_with_timeout (timeout r) p h ev (createContext r) w)) =
          Some (out, w') \<and>
    invoked w' = invoked w @ [(p, handler_name h, ev)] \<and> delivered w' = delivered w"
proof (cases "isBeforeCompact ev")
  case True
  with invoke_without_timeout_observed [OF True assms, of p w] show ?thesis by simp
next
  case False
  with invoke_with_timeout_observed [OF False, of r p h w] assms show ?thesis by auto
qed

lemma emit_one:
  assumes "observed r ev h = Some out" and acc: "accepted r ev (p, h)"
  shows "\<exists>fl. emit_handlers r (createContext r) ev p [h] result w = Some (Inr fl) \<and>
    invoked (flow_world fl) = invoked w @ [(p, handler_name h, ev)] \<and>
    delivered (flow_world fl) = delivered w @ errors_reported r ev [(p, h)] \<and>
    (if cancels r ev h then \<exists>res. out = Inr (Some res) \<and> fl = Returned (Some res) (flow_world fl)
     else \<exists>v. fl = Running v (flow_world fl))"
proof -
  from invoke_observed [OF assms(1), of p w] obtain w'
    where inv: "(if isBeforeCompact ev then invoke_without_timeout p h ev (createContext r) w
            else Some (invoke_with_timeout (timeout r) p h ev (createContext r) w)) =
          Some (out, w')"
      and i: "invoked w' = invoked w @ [(p, handler_name h, ev)]"
      and d: "delivered w' = delivered w"
    by blast
  show ?thesis
  proof (cases out)
    case (Inl message)
    let ?err = "\<lparr>hookPath = p, event = event_type ev, error_msg = message\<rparr>"
    have "quiet r ?err"
      using acc assms(1) Inl by (simp add: accepted_def failure_def)
    from emitError_quiet [OF this, of w'] obtain w''
      where e: "emitError r ?err w' = (None, w'')" and i2: "invoked w'' = invoked w'"
        and d2: "delivered w'' = delivered w' @
          map (\<lambda>l. (listener_name l, ?err)) (set_values (errorListeners r))"
      by blast
    have "emit_handlers r (createContext r) ev p [h] result w = Some (Inr (Running result w''))"
      unfolding emit_handlers.simps inv Inl by (simp add: e)
    moreover have "\<not> cancels r ev h"
      using assms(1) Inl by (simp add: cancels_def)
    moreover have "errors_reported r ev [(p, h)] =
      map (\<lambda>l. (listener_name l, ?err)) (set_values (errorListeners r))"
      using assms(1) Inl by (simp add: errors_reported_def failure_def)
    ultimately show ?thesis
      using i d i2 d2 by simp
  next
    case (Inr v)
    have nofail: "errors_reported r ev [(p, h)] = []"
      using assms(1) Inr by (simp add: errors_reported_def failure_def)
    show ?thesis
    proof (cases v)
      case None
      have "emit_handlers r (createContext r) ev p [h] result w = Some (Inr (Running result w'))"
        unfolding emit_handlers.simps inv Inr None by simp
      moreover have "\<not> cancels r ev h"
        using assms(1) Inr None by (simp add: cancels_def)
      ultimately show ?thesis using i d nofail by simp
    next
      case (Some res)
      show ?thesis
      proof (cases "cancels r ev h")
        case True
        then have "event_type ev = ''session''" "cancel res"
          using assms(1) Inr Some by (simp_all add: cancels_def)
        then have "emit_handlers r (createContext r) ev p [h] result w =
            Some (Inr (Returned (Some res) w'))"
          unfolding emit_handlers.simps inv Inr Some by simp
        with True i d nofail Inr Some show ?thesis by simp
      next
        case False
        then have nc: "event_type ev = ''session'' \<longrightarrow> \<not> cancel res"
          using assms(1) Inr Some by (simp add: cancels_def)
        have "\<exists>v. emit_handlers r (createContext r) ev p [h] result w =
            Some (Inr (Running v w'))"
          unfolding emit_handlers.simps inv Inr Some using nc by simp
        with False i d nofail show ?thesis by auto
      qed
    qed
  qed
qed

lemma emit_flat_running:
  assumes "\<forall>(p, h)\<in>set calls.
      observed r ev h \<noteq> None \<and> \<not> cancels r ev h \<and> accepted r ev (p, h)"
  shows "\<exists>v w'. emit_flat r (createContext r) ev calls result w = Some (Inr (Running v w')) \<and>
    invoked w' = invoked w @ calls_logged ev calls \<and>
    delivered w' = delivered w @ errors_reported r ev calls"
  using assms
proof (induction calls arbitrary: result w)
  case Nil
  then show ?case by simp
next
  case (Cons x calls)
  obtain p h where x: "x = (p, h)" by (cases x)
  from Cons.prems x obtain out where out: "observed r ev h = Some out"
    and nc: "\<not> cancels r ev h" and acc: "accepted r ev (p, h)"
    by auto
  from emit_one [OF out acc, of result w] nc obtain v w1
    where one: "emit_handlers r (createContext r) ev p [h] result w = Some (Inr (Running v w1))"
      and i1: "invoked w1 = invoked w @ [(p, handler_name h, ev)]"
      and d1: "delivered w1 = delivered w @ errors_reported r ev [(p, h)]"
    by fastforce
  from Cons.prems have "\<forall>(p, h)\<in>set calls.
      observed r ev h \<noteq> None \<and> \<not> cancels r ev h \<and> accepted r ev (p, h)"
    by simp
  from Cons.IH [OF this, of v w1] obtain v' w'
    where rest: "emit_flat r (createContext r) ev calls v w1 = Some (Inr (Running v' w'))"
      and i2: "invoked w' = invoked w1 @ calls_logged ev calls"
      and d2: "delivered w' = delivered w1 @ errors_reported r ev calls"
    by blast
  have "emit_flat r (createContext r) ev (x # calls) result w = Some (Inr (Running v' w'))"
    unfolding x emit_flat.simps one using rest by simp
  moreover have "invoked w' = invoked w @ calls_logged ev (x # calls)"
    unfolding x calls_logged_Cons i2 i1 by simp
  moreover have "delivered w' = delivered w @ errors_reported r ev (x # calls)"
    unfolding x d2 d1 errors_reported_Cons [of r ev "(p, h)" calls] by simp
  ultimately show ?case by blast
qed

lemma emit_flat_cancelled:
  assumes pre: "\<forall>(q, g)\<in>set pre.
      observed r ev g \<noteq> None \<and> \<not> cancels r ev g \<and> accepted r ev (q, g)"
    and out: "observed r ev h = Some out" and c: "cancels r ev h"
  shows "\<exists>res w'. out = Inr (Some res) \<and>
    emit_flat r (createContext r) ev (pre @ (p, h) # post) result w =
      Some (Inr (Returned (Some res) w')) \<and>
    invoked w' = invoked w @ calls_logged ev (pre @ [(p, h)]) \<and>
    delivered w' = delivered w @ errors_reported r ev (pre @ [(p, h)])"
proof -
  from emit_flat_running [OF pre, of result w] obtain v w1
    where run: "emit_flat r (createContext r) ev pre result w = Some (Inr (Running v w1))"
      and i1: "invoked w1 = invoked w @ calls_logged ev pre"
      and d1: "delivered w1 = delivered w @ errors_reported r ev pre"
    by blast
  have acc: "accepted r ev (p, h)"
    using c by (auto simp: accepted_def failure_def cancels_def split: option.splits sum.splits)
  from emit_one [OF out acc, of v w1] c obtain res w'
    where res: "out = Inr (Some res)"
      and one: "emit_handlers r (createContext r) ev p [h] v w1 =
        Some (Inr (Returned (Some res) w'))"
      and i2: "invoked w' = invoked w1 @ [(p, handler_name h, ev)]"
      and d2: "delivered w' = delivered w1 @ errors_reported r ev [(p, h)]"
    by fastforce
  have "emit_flat r (createContext r) ev (pre @ (p, h) # post) result w =
      Some (Inr (Returned (Some res) w'))"
    unfolding emit_flat_append run using one by simp
  moreover have "invoked w' = invoked w @ calls_logged ev (pre @ [(p, h)])"
    unfolding i2 i1 by (simp add: calls_logged_Cons)
  moreover have "delivered w' = delivered w @ errors_reported r ev (pre @ [(p, h)])"
    unfolding d2 d1 by simp
  ultimately show ?thesis using res by blast
qed

lemma timeout_message_30000: "timeout_message 30000 = ''Hook timed out after 30000ms''"
  by (simp add: timeout_message_def string_of_nat.simps)

lemmas example_defs = example_handler_def example_listener_def example_hook_def
  example_runner_def example_event_def new_world_def example_result_def Set_of_def

lemmas runner_defs = emit_def emitContext_def createContext_def isBeforeCompact_def
  invoke_with_timeout_def invoke_without_timeout_def handler_first_def createTimeout_def
  call_logged_def clear_def elapse_def emitError_def context_event_def







text \<open>
  C4. On a session event, let a handler be observed to return a result with the
  \<open>cancel\<close> flag, the calls before it in dispatch order having settled without
  cancelling and without an error on which a listener throws, so that the handler is
  reached. Then \<open>emit\<close> returns that result, and the handler calls made are those
  before it and its own: no handler after it in dispatch order is called, neither a later
  handler of the same hook nor a handler of a later hook.
\<close>

theorem emit_cancel_stops_dispatch:
  assumes "event_type ev = ''session''"
    and order: "dispatch_order (hooks r) ''session'' = pre @ (p, h) # post"
    and pre: "\<forall>(q, g)\<in>set pre.
      observed r ev g \<noteq> None \<and> \<not> cancels r ev g \<and> accepted r ev (q, g)"
    and out: "observed r ev h = Some (Inr (Some res))"
    and "cancel res"
  shows "\<exists>w'. emit r ev w = Some (Inr (Some res), w') \<and>
    invoked w' = invoked w @ calls_logged ev (pre @ [(p, h)])"
proof -
  have c: "cancels r ev h"
    using assms(1) out \<open>cancel res\<close> by (simp add: cancels_def)
  from emit_flat_cancelled [OF pre out c, of p post None w] obtain w'
    where run: "emit_flat r (createContext r) ev (pre @ (p, h) # post) None w =
        Some (Inr (Returned (Some res) w'))"
      and i: "invoked w' = invoked w @ calls_logged ev (pre @ [(p, h)])"
    by auto
  from run have "emit_flat r (createContext r) ev (dispatch_order (hooks r) (event_type ev))
      None w = Some (Inr (Returned (Some res) w'))"
    by (simp only: assms(1) order)
  then have "emit r ev w = Some (Inr (Some res), w')"
    by (simp add: emit_def emit_hooks_flat)
  with i show ?thesis by blast
qed

theorem emit_cancel_stops_dispatch_witness:
  "emit
     (example_runner
        [example_listener ''ui'' None, example_listener ''log'' None]
        [example_hook ''one.ts'' ''session''
           [example_handler ''fine'' (Settles 0 (Resolved None)),
            example_handler ''stop'' (Settles 0 (Resolved (Some (example_result True None)))),
            example_handler ''skipped'' (Settles 0 (Resolved None))],
         example_hook ''two.ts'' ''session''
           [example_handler ''unreached'' (Settles 0 (Resolved None))]])
     (example_event ''session'' ''before_switch'') new_world =
   Some (Inr (Some (example_result True None)),
     \<lparr>invoked =
        [(''one.ts'', ''fine'', example_event ''session'' ''before_switch''),
         (''one.ts'', ''stop'', example_event ''session'' ''before_switch'')],
      delivered = [], clock = 0, timers_created = 2, scheduled = []\<rparr>)"
proof -
  let ?r = "(example_runner
        [example_listener ''ui'' None, example_listener ''log'' None]
        [example_hook ''one.ts'' ''session''
           [example_handler ''fine'' (Settles 0 (Resolved None)),
            example_handler ''stop'' (Settles 0 (Resolved (Some (example_result True None)))),
            example_handler ''skipped'' (Settles 0 (Resolved None))],
         example_hook ''two.ts'' ''session''
           [example_handler ''unreached'' (Settles 0 (Resolved None))]])"
  let ?ev = "(example_event ''session'' ''before_switch'')"
  let ?fine = "example_handler ''fine'' (Settles 0 (Resolved None))"
  let ?stop = "example_handler ''stop'' (Settles 0 (Resolved (Some (example_result True None))))"
  let ?post = "[(''one.ts'', example_handler ''skipped'' (Settles 0 (Resolved None))),
      (''two.ts'', example_handler ''unreached'' (Settles 0 (Resolved None)))]"
  have t: "event_type ?ev = ''session''"
    by (simp add: example_event_def)
  have o: "dispatch_order (hooks ?r) ''session'' =
      [(''one.ts'', ?fine)] @ (''one.ts'', ?stop) # ?post"
    by (simp add: dispatch_order_def handlers_for_def example_defs)
  have pre: "\<forall>(q, g)\<in>set [(''one.ts'', ?fine)].
      observed ?r ?ev g \<noteq> None \<and> \<not> cancels ?r ?ev g \<and> accepted ?r ?ev (q, g)"
    by (simp add: observed_def cancels_def accepted_def failure_def handler_first_def
        example_defs)
  have out: "observed ?r ?ev ?stop = Some (Inr (Some (example_result True None)))"
    by (simp add: observed_def handler_first_def example_defs)
  have c: "cancel (example_result True None)"
    by (simp add: example_result_def)
  from emit_cancel_stops_dispatch [OF t o pre out c, of new_world]
  obtain w' where "emit ?r ?ev new_world = Some (Inr (Some (example_result True None)), w')"
    by blast
  moreover have "emit ?r ?ev new_world =
   Some (Inr (Some (example_result True None)),
     \<lparr>invoked =
        [(''one.ts'', ''fine'', example_event ''session'' ''before_switch''),
         (''one.ts'', ''stop'', example_event ''session'' ''before_switch'')],
      delivered = [], clock = 0, timers_created = 2, scheduled = []\<rparr>)"
    by (simp add: example_defs runner_defs)
  ultimately show ?thesis by simp
qed










text \<open>
  C6. A handler call of \<open>emit\<close> with a timeout of 30000 milliseconds, in its three
  outcomes. When the handler rejects before the timeout, the error is reported and the
  timer is left scheduled: \<open>timeout.clear()\<close> follows the \<open>await\<close> and is skipped when
  the \<open>await\<close> throws. When the handler resolves in time the timer is cleared, and when
  the timer fires first the call is an error whose message cites the timeout and no timer
  is left. A context handler that rejects in \<open>emitContext\<close> leaves its timer scheduled
  in the same way.
\<close>

theorem emit_rejecting_handler_keeps_timer:
  "emit
     (example_runner
        [example_listener ''ui'' None, example_listener ''log'' None]
        [example_hook ''one.ts'' ''session'' [example_handler ''only'' (Settles 5 (Rejected ''boom''))]])
     (example_event ''session'' ''shutdown'') new_world =
   Some (Inr None,
     \<lparr>invoked = [(''one.ts'', ''only'', example_event ''session'' ''shutdown'')],
      delivered =
        [(''ui'', \<lparr>hookPath = ''one.ts'', event = ''session'', error_msg = ''boom''\<rparr>),
         (''log'', \<lparr>hookPath = ''one.ts'', event = ''session'', error_msg = ''boom''\<rparr>)],
      clock = 5, timers_created = 1, scheduled = [(0, 30000)]\<rparr>) \<and>
   emit
     (example_runner
        [example_listener ''ui'' None, example_listener ''log'' None]
        [example_hook ''one.ts'' ''session'' [example_handler ''only'' (Settles 5 (Resolved None))]])
     (example_event ''session'' ''shutdown'') new_world =
   Some (Inr None,
     \<lparr>invoked = [(''one.ts'', ''only'', example_event ''session'' ''shutdown'')],
      delivered = [], clock = 5, timers_created = 1, scheduled = []\<rparr>) \<and>
   emit
     (example_runner
        [example_listener ''ui'' None, example_listener ''log'' None]
        [example_hook ''one.ts'' ''session'' [example_handler ''only'' (Settles 40000 (Resolved None))]])
     (example_event ''session'' ''shutdown'') new_world =
   Some (Inr None,
     \<lparr>invoked = [(''one.ts'', ''only'', example_event ''session'' ''shutdown'')],
      delivered =
        [(''ui'', \<lparr>hookPath = ''one.ts'', event = ''session'',
            error_msg = ''Hook timed out after 30000ms''\<rparr>),
         (''log'', \<lparr>hookPath = ''one.ts'', event = ''session'',
            error_msg = ''Hook timed out after 30000ms''\<rparr>)],
      clock = 30000, timers_created = 1, scheduled = []\<rparr>) \<and>
   emitContext
     (example_runner
        [example_listener ''ui'' None, example_listener ''log'' None]
        [example_hook ''one.ts'' ''context'' [example_handler ''only'' (Settles 5 (Rejected ''boom''))]])
     [UserMessage (Str ''original'')] new_world =
   (Inr None,
     \<lparr>invoked = [(''one.ts'', ''only'', context_event [UserMessage (Str ''original'')])],
      delivered =
        [(''ui'', \<lparr>hookPath = ''one.ts'', event = ''context'', error_msg = ''boom''\<rparr>),
         (''log'', \<lparr>hookPath = ''one.ts'', event = ''context'', error_msg = ''boom''\<rparr>)],
      clock = 5, timers_created = 1, scheduled = [(0, 30000)]\<rparr>)"
  by (simp add: example_defs runner_defs timeout_message_30000)

end
